theory Spec2Isabelle
  imports Main "HOL-Library.Word"
begin

section \<open>LocalDce: statistics\<close>

text \<open>
  \<^verbatim>\<open>LocalDce::Stats\<close> (LocalDce.h, lines 26 to 41) is a struct of five \<^verbatim>\<open>size_t\<close>
  counters, each with the default member initialiser \<^verbatim>\<open>{0}\<close>. \<^verbatim>\<open>size_t\<close> is an unsigned
  machine integer whose addition wraps around; it is modelled at its width on the 64-bit
  targets the optimizer is built for.
\<close>

type_synonym size_t = "64 word"

record Stats =
  npe_instruction_count :: size_t
  dead_instruction_count :: size_t
  unreachable_instruction_count :: size_t
  aliased_new_instances :: size_t
  normalized_new_instances :: size_t

text \<open>A default-constructed \<^verbatim>\<open>Stats\<close>: every member takes its initialiser \<^verbatim>\<open>{0}\<close>.\<close>

definition Stats_default :: Stats where
  "Stats_default =
     \<lparr> npe_instruction_count = 0,
       dead_instruction_count = 0,
       unreachable_instruction_count = 0,
       aliased_new_instances = 0,
       normalized_new_instances = 0 \<rparr>"

text \<open>
  \<^verbatim>\<open>Stats& operator+=(const Stats& that)\<close>: the five compound assignments, in the order of
  the source, on the object the operator is called on; the updated object is what the
  returned reference denotes.
\<close>

definition stats_add :: "Stats \<Rightarrow> Stats \<Rightarrow> Stats" where
  "stats_add this that =
     this\<lparr> npe_instruction_count :=
             npe_instruction_count this + npe_instruction_count that,
           dead_instruction_count :=
             dead_instruction_count this + dead_instruction_count that,
           unreachable_instruction_count :=
             unreachable_instruction_count this + unreachable_instruction_count that,
           aliased_new_instances :=
             aliased_new_instances this + aliased_new_instances that,
           normalized_new_instances :=
             normalized_new_instances this + normalized_new_instances that \<rparr>"

section \<open>The graph model\<close>

text \<open>
  LocalDce.h only forward-declares \<^verbatim>\<open>cfg::Block\<close>, \<^verbatim>\<open>cfg::ControlFlowGraph\<close>, \<^verbatim>\<open>cfg::Edge\<close>,
  \<^verbatim>\<open>DexMethodRef\<close> and \<^verbatim>\<open>IRInstruction\<close>; their declarations are not part of the sources.

  Modelled from the spec: the graph types, after section 3 (data model). A method
  reference and a block are known by their identity (a pointer in the source); a block's
  identity is its index in the graph.
\<close>

type_synonym method_ref = nat
type_synonym block_id = nat

text \<open>
  Modelled from the spec: a register operand. "Register: index in [0, num_regs); one
  synthetic extra slot (index num_regs) represents the pending result of a call/throwing
  instruction, tracked as a liveness bit distinct from named registers." The header says
  the same: "Function call results are represented by bit #num_regs."
\<close>

datatype register = Reg nat | Result

fun bit_of :: "nat \<Rightarrow> register \<Rightarrow> nat" where
  "bit_of n (Reg r) = r"
| "bit_of n Result = n"

fun valid_register :: "nat \<Rightarrow> register \<Rightarrow> bool" where
  "valid_register n (Reg r) = (r < n)"
| "valid_register n Result = True"

text \<open>
  Modelled from the spec: "Edge: kind in {normal/goto, conditional-branch,
  throw-to-handler, synthetic/ghost}; source block, target block."
\<close>

datatype edge_kind = EDGE_GOTO | EDGE_BRANCH | EDGE_THROW | EDGE_GHOST

record edge =
  kind :: edge_kind
  src :: block_id
  target :: block_id

text \<open>
  Modelled from the spec: "Instruction: opcode; zero-or-one destination register; ordered
  list of source registers; intrinsic side-effect flag (object write, I/O, control
  transfer, call); may-throw flag; for call instructions, a callee reference (possibly
  virtual); for construction instructions, an allocation identity."
\<close>

record call_target =
  callee_ref :: method_ref
  callee_virtual :: bool

record instruction =
  opcode :: nat
  dest :: "register option"
  srcs :: "register list"
  side_effect :: bool
  may_throw :: bool
  callee :: "call_target option"
  allocation :: "nat option"

text \<open>
  Modelled from the spec: "Block: ordered sequence of instructions; set of outgoing edges;
  flag marking it as a catch/exception handler entry." The graph fixes \<open>num_regs\<close> for one
  invocation.
\<close>

record block =
  insns :: "instruction list"
  succs :: "edge list"
  is_catch :: bool

record ControlFlowGraph =
  num_regs :: nat
  blocks :: "block list"

definition insns_of :: "ControlFlowGraph \<Rightarrow> block_id \<Rightarrow> instruction list" where
  "insns_of cfg b = (if b < length (blocks cfg) then insns (blocks cfg ! b) else [])"

definition succs_of :: "ControlFlowGraph \<Rightarrow> block_id \<Rightarrow> edge list" where
  "succs_of cfg b = (if b < length (blocks cfg) then succs (blocks cfg ! b) else [])"

definition is_catch_block :: "ControlFlowGraph \<Rightarrow> block_id \<Rightarrow> bool" where
  "is_catch_block cfg b = (b < length (blocks cfg) \<and> is_catch (blocks cfg ! b))"

text \<open>
  Modelled from the spec: the malformed graphs of section 7, "an instruction referencing a
  register index outside [0, num_regs)"; such a graph is fatal for the invocation. A block
  handed to the analysis must be a block of the graph.
\<close>

definition well_formed :: "ControlFlowGraph \<Rightarrow> block_id list \<Rightarrow> bool" where
  "well_formed cfg bs =
     ((\<forall>b \<in> set bs. b < length (blocks cfg)) \<and>
      (\<forall>blk \<in> set (blocks cfg). \<forall>i \<in> set (insns blk).
         (\<forall>d \<in> set_option (dest i). valid_register (num_regs cfg) d) \<and>
         (\<forall>s \<in> set (srcs i). valid_register (num_regs cfg) s)))"

section \<open>The LocalDce object\<close>

text \<open>
  The private members of \<^verbatim>\<open>class LocalDce\<close> (LocalDce.h, lines 90 to 93), set by the
  constructor of lines 69 to 75: the set of pure methods, the method override graph (a
  pointer that may be null, \<open>None\<close> here, and is null by default) and the flag
  \<^verbatim>\<open>may_allocate_registers\<close>; the statistics start default-constructed.
\<close>

record LocalDce =
  m_pure_methods :: "method_ref set"
  m_method_override_graph :: "(method_ref \<Rightarrow> method_ref set) option"
  m_may_allocate_registers :: bool
  m_stats :: Stats

definition LocalDce_new ::
  "method_ref set \<Rightarrow> (method_ref \<Rightarrow> method_ref set) option \<Rightarrow> bool \<Rightarrow> LocalDce" where
  "LocalDce_new pure_methods method_override_graph may_allocate_registers =
     \<lparr> m_pure_methods = pure_methods,
       m_method_override_graph = method_override_graph,
       m_may_allocate_registers = may_allocate_registers,
       m_stats = Stats_default \<rparr>"

definition get_stats :: "LocalDce \<Rightarrow> Stats" where
  "get_stats dce = m_stats dce"

section \<open>Purity oracle and requirement classifier\<close>

text \<open>
  Modelled from the spec: the body of \<^verbatim>\<open>LocalDce::assumenosideeffects\<close>, which the header
  only declares. Section 4.2, in its order: "If the callee reference is in the
  pure-callable set, return true. If the call is virtual and an override graph is
  available, return true only if every possible overriding method reference is also in the
  pure-callable set. Otherwise return false." The bullets are taken in their order, the
  first that applies deciding.
\<close>

definition assumenosideeffects :: "LocalDce \<Rightarrow> call_target \<Rightarrow> bool" where
  "assumenosideeffects dce c =
     (if callee_ref c \<in> m_pure_methods dce then True
      else if callee_virtual c then
        (case m_method_override_graph dce of
           None \<Rightarrow> False
         | Some g \<Rightarrow> (\<forall>m \<in> g (callee_ref c). m \<in> m_pure_methods dce))
      else False)"

text \<open>The throw edges among \<open>es\<close> that lead to a catch-handler entry.\<close>

definition catch_edges :: "ControlFlowGraph \<Rightarrow> edge list \<Rightarrow> edge list" where
  "catch_edges cfg es = filter (\<lambda>e. kind e = EDGE_THROW \<and> is_catch_block cfg (target e)) es"

text \<open>
  A liveness bitvector (\<^verbatim>\<open>boost::dynamic_bitset\<close> of \<open>num_regs + 1\<close> bits) is the set of
  the indices of its 1-bits.
\<close>

type_synonym liveness = "nat set"

text \<open>
  Modelled from the spec: the bits an instruction writes and the bits it reads. An
  instruction writes its destination register, and a call writes the pending-result slot:
  "Function call results are represented by bit #num_regs." It reads its source
  registers.
\<close>

definition defs :: "nat \<Rightarrow> instruction \<Rightarrow> liveness" where
  "defs n inst =
     bit_of n ` set_option (dest inst) \<union> (if callee inst = None then {} else {n})"

definition uses :: "nat \<Rightarrow> instruction \<Rightarrow> liveness" where
  "uses n inst = bit_of n ` set (srcs inst)"

text \<open>Whether something the instruction writes is live in \<open>bl\<close>.\<close>

definition dest_live :: "nat \<Rightarrow> instruction \<Rightarrow> liveness \<Rightarrow> bool" where
  "dest_live n inst bl = (defs n inst \<inter> bl \<noteq> {})"

text \<open>
  Modelled from the spec: the body of \<^verbatim>\<open>LocalDce::is_required\<close>, which the header only
  declares. Section 4.3, rules in priority order: (1) an instruction with an intrinsic
  side effect that is not a call is required; (2) a call is required unless the purity
  oracle certifies it and its result (the pending-result slot, and its destination
  register if it names one) is not live after it; (3) an instruction that may throw inside
  a block guarded by a catch handler is required (the rule's further condition on the
  order of execution is not expressible in the data model and is taken as fulfilled, the
  conservative choice); (4) otherwise the instruction is required iff its destination
  register is live.
\<close>

definition is_required ::
  "LocalDce \<Rightarrow> ControlFlowGraph \<Rightarrow> block_id \<Rightarrow> instruction \<Rightarrow> liveness \<Rightarrow> bool" where
  "is_required dce cfg b inst bliveness =
     (case callee inst of
        None \<Rightarrow>
          if side_effect inst then True
          else if may_throw inst \<and> catch_edges cfg (succs_of cfg b) \<noteq> [] then True
          else dest_live (num_regs cfg) inst bliveness
      | Some c \<Rightarrow>
          \<not> (assumenosideeffects dce c \<and> \<not> dest_live (num_regs cfg) inst bliveness))"

section \<open>The liveness sweep\<close>

text \<open>
  The header describes the algorithm of \<^verbatim>\<open>dce\<close> and \<^verbatim>\<open>get_dead_instructions\<close> (LocalDce.h,
  lines 43 to 67) and declares the functions; their bodies are not part of the sources.

  Modelled from the spec: the liveness engine, after the header's comment and section 4.1.
  One bitvector per block holds its live-in state, initially empty.
\<close>

type_synonym block_liveness = "block_id \<Rightarrow> liveness"

text \<open>
  "Compute each block's output state by OR-ing the liveness of its successors."
\<close>

definition live_out :: "block_liveness \<Rightarrow> edge list \<Rightarrow> liveness" where
  "live_out lv es = (\<Union>e \<in> set es. lv (target e))"

text \<open>
  Modelled from the spec: the catch-block rule. "For every block that is a catch-handler
  entry, union its live-in into the live-out of every block that has a throw edge reaching
  it, and propagate that conservatively through the whole guarding region (any instruction
  in the region is a potential throw point)"; in the header's words, these registers
  "must be kept live throughout the try region".
\<close>

definition catch_live ::
  "ControlFlowGraph \<Rightarrow> (block_id \<Rightarrow> edge list) \<Rightarrow> block_liveness \<Rightarrow> block_id \<Rightarrow> liveness" where
  "catch_live cfg succs_fn lv b = live_out lv (catch_edges cfg (succs_fn b))"

text \<open>
  Modelled from the spec: one instruction of the reverse walk. "For a non-required
  instruction, liveness of its destination register is cleared and its source registers
  are not added; for a required instruction, destination liveness is cleared and all
  source registers are marked live."
\<close>

definition update_liveness :: "nat \<Rightarrow> bool \<Rightarrow> instruction \<Rightarrow> liveness \<Rightarrow> liveness" where
  "update_liveness n required inst bl =
     (let cleared = bl - defs n inst
      in if required then cleared \<union> uses n inst else cleared)"

text \<open>
  The requirement test of the generic query: the caller's \<^verbatim>\<open>may_be_required_fn\<close> (a
  predicate on block and instruction, by its declared type) and the classifier.
\<close>

definition block_req ::
  "LocalDce \<Rightarrow> ControlFlowGraph \<Rightarrow> (block_id \<Rightarrow> instruction \<Rightarrow> bool) \<Rightarrow> block_id \<Rightarrow>
   instruction \<Rightarrow> liveness \<Rightarrow> bool" where
  "block_req dce cfg may_be_required_fn b i bl =
     (may_be_required_fn b i \<and> is_required dce cfg b i bl)"

text \<open>
  "Walk each block's instructions in reverse to determine its input state." The walk
  starts from the state \<open>bl\<close> at the end of the block; \<open>T\<close> is the catch liveness of the
  block, kept live at every instruction; \<open>k\<close> is the position of the first instruction of
  the list. The positions of the instructions found not required are collected in the
  order of the walk.
\<close>

fun walk_block ::
  "(instruction \<Rightarrow> liveness \<Rightarrow> bool) \<Rightarrow> nat \<Rightarrow> liveness \<Rightarrow> nat \<Rightarrow> instruction list \<Rightarrow>
   liveness \<Rightarrow> liveness \<times> nat list" where
  "walk_block req n T k [] bl = (bl, [])"
| "walk_block req n T k (i # is) bl =
     (case walk_block req n T (Suc k) is bl of
        (bl', dead) \<Rightarrow>
          let required = req i bl'
          in (update_liveness n required i bl' \<union> T, if required then dead else dead @ [k]))"

definition process_block ::
  "LocalDce \<Rightarrow> ControlFlowGraph \<Rightarrow> (block_id \<Rightarrow> edge list) \<Rightarrow>
   (block_id \<Rightarrow> instruction \<Rightarrow> bool) \<Rightarrow> block_liveness \<Rightarrow> block_id \<Rightarrow> liveness \<times> nat list" where
  "process_block dce cfg succs_fn may_be_required_fn lv b =
     walk_block (block_req dce cfg may_be_required_fn b) (num_regs cfg)
       (catch_live cfg succs_fn lv b) 0 (insns_of cfg b)
       (live_out lv (succs_fn b) \<union> catch_live cfg succs_fn lv b)"

text \<open>
  One sweep over the blocks in the given order. The state is the live-in of every block,
  the flag "the liveness of some block changed during this pass" and the dead
  instructions found so far in the pass, as pairs of block and position.
\<close>

type_synonym sweep_state = "block_liveness \<times> bool \<times> (block_id \<times> nat) list"

fun sweep ::
  "LocalDce \<Rightarrow> ControlFlowGraph \<Rightarrow> (block_id \<Rightarrow> edge list) \<Rightarrow>
   (block_id \<Rightarrow> instruction \<Rightarrow> bool) \<Rightarrow> block_id list \<Rightarrow> sweep_state \<Rightarrow> sweep_state" where
  "sweep dce cfg succs_fn may_be_required_fn [] s = s"
| "sweep dce cfg succs_fn may_be_required_fn (b # bs) (lv, changed, dead) =
     (let prev_liveness = lv b;
          (bliveness, d) = process_block dce cfg succs_fn may_be_required_fn lv b
      in sweep dce cfg succs_fn may_be_required_fn bs
           (lv(b := bliveness), changed \<or> bliveness \<noteq> prev_liveness,
            dead @ map (Pair b) d))"

text \<open>
  "If the liveness of any block changes during a pass, repeat it." The loop has no bound
  of its own: not returning is the value \<open>None\<close>. The last component is bookkeeping for
  the properties below: the number of passes run, the last one, which changes nothing,
  included.
\<close>

partial_function (option) fixpoint_loop ::
  "LocalDce \<Rightarrow> ControlFlowGraph \<Rightarrow> (block_id \<Rightarrow> edge list) \<Rightarrow>
   (block_id \<Rightarrow> instruction \<Rightarrow> bool) \<Rightarrow> block_id list \<Rightarrow> block_liveness \<Rightarrow> nat \<Rightarrow>
   (block_liveness \<times> (block_id \<times> nat) list \<times> nat) option" where
  "fixpoint_loop dce cfg succs_fn may_be_required_fn bs lv n =
     (case sweep dce cfg succs_fn may_be_required_fn bs (lv, False, []) of
        (lv', changed, dead) \<Rightarrow>
          if changed then fixpoint_loop dce cfg succs_fn may_be_required_fn bs lv' (Suc n)
          else Some (lv', dead, Suc n))"

declare fixpoint_loop.simps [code]

datatype error = MalformedGraph

text \<open>
  The analysis from the initial state, with what it computes on the way: the final
  live-in of every block, the dead instructions of the last pass and the number of passes.
\<close>

definition liveness_fixpoint ::
  "LocalDce \<Rightarrow> ControlFlowGraph \<Rightarrow> block_id list \<Rightarrow> (block_id \<Rightarrow> edge list) \<Rightarrow>
   (block_id \<Rightarrow> instruction \<Rightarrow> bool) \<Rightarrow>
   (error + block_liveness \<times> (block_id \<times> nat) list \<times> nat) option" where
  "liveness_fixpoint dce cfg bs succs_fn may_be_required_fn =
     (if well_formed cfg bs
      then map_option Inr (fixpoint_loop dce cfg succs_fn may_be_required_fn bs (\<lambda>_. {}) 0)
      else Some (Inl MalformedGraph))"

text \<open>
  \<^verbatim>\<open>LocalDce::get_dead_instructions(cfg, blocks, succs_fn, may_be_required_fn)\<close> returns the
  pairs of block and instruction position.
\<close>

definition get_dead_instructions ::
  "LocalDce \<Rightarrow> ControlFlowGraph \<Rightarrow> block_id list \<Rightarrow> (block_id \<Rightarrow> edge list) \<Rightarrow>
   (block_id \<Rightarrow> instruction \<Rightarrow> bool) \<Rightarrow> (error + (block_id \<times> nat) list) option" where
  "get_dead_instructions dce cfg bs succs_fn may_be_required_fn =
     map_option (map_sum id (fst \<circ> snd)) (liveness_fixpoint dce cfg bs succs_fn may_be_required_fn)"

definition sweeps_of ::
  "(error + block_liveness \<times> (block_id \<times> nat) list \<times> nat) option \<Rightarrow> nat option" where
  "sweeps_of res = (case res of Some (Inr (lv, dead, n)) \<Rightarrow> Some n | _ \<Rightarrow> None)"

definition live_in_of ::
  "(error + block_liveness \<times> (block_id \<times> nat) list \<times> nat) option \<Rightarrow> block_id \<Rightarrow>
   liveness option" where
  "live_in_of res b = (case res of Some (Inr (lv, dead, n)) \<Rightarrow> Some (lv b) | _ \<Rightarrow> None)"

section \<open>Notions for stating the properties\<close>

text \<open>The live-in of a block as one pass recomputes it, and the states pass by pass.\<close>

fun live_before ::
  "(instruction \<Rightarrow> liveness \<Rightarrow> bool) \<Rightarrow> nat \<Rightarrow> liveness \<Rightarrow> instruction list \<Rightarrow> liveness \<Rightarrow>
   liveness" where
  "live_before req n T [] bl = bl"
| "live_before req n T (i # is) bl =
     (let bl' = live_before req n T is bl in update_liveness n (req i bl') i bl' \<union> T)"

definition transfer ::
  "LocalDce \<Rightarrow> ControlFlowGraph \<Rightarrow> (block_id \<Rightarrow> edge list) \<Rightarrow>
   (block_id \<Rightarrow> instruction \<Rightarrow> bool) \<Rightarrow> block_liveness \<Rightarrow> block_id \<Rightarrow> liveness" where
  "transfer dce cfg succs_fn mbr lv b = fst (process_block dce cfg succs_fn mbr lv b)"

definition sweep_lv ::
  "LocalDce \<Rightarrow> ControlFlowGraph \<Rightarrow> (block_id \<Rightarrow> edge list) \<Rightarrow>
   (block_id \<Rightarrow> instruction \<Rightarrow> bool) \<Rightarrow> block_id list \<Rightarrow> block_liveness \<Rightarrow> block_liveness" where
  "sweep_lv dce cfg succs_fn mbr bs lv = fst (sweep dce cfg succs_fn mbr bs (lv, False, []))"

definition after_sweeps ::
  "LocalDce \<Rightarrow> ControlFlowGraph \<Rightarrow> block_id list \<Rightarrow> (block_id \<Rightarrow> edge list) \<Rightarrow>
   (block_id \<Rightarrow> instruction \<Rightarrow> bool) \<Rightarrow> nat \<Rightarrow> block_liveness" where
  "after_sweeps dce cfg bs succs_fn mbr k = (sweep_lv dce cfg succs_fn mbr bs ^^ k) (\<lambda>_. {})"

text \<open>
  The liveness before the instruction at position \<open>k\<close> of block \<open>b\<close> (at the end of the
  block for \<open>k\<close> its length) that a pass computes from the block states \<open>lv\<close>, and whether
  the instruction at position \<open>k\<close> is required there.
\<close>

definition live_at ::
  "LocalDce \<Rightarrow> ControlFlowGraph \<Rightarrow> (block_id \<Rightarrow> edge list) \<Rightarrow>
   (block_id \<Rightarrow> instruction \<Rightarrow> bool) \<Rightarrow> block_liveness \<Rightarrow> block_id \<Rightarrow> nat \<Rightarrow> liveness" where
  "live_at dce cfg succs_fn mbr lv b k =
     live_before (block_req dce cfg mbr b) (num_regs cfg) (catch_live cfg succs_fn lv b)
       (drop k (insns_of cfg b)) (live_out lv (succs_fn b) \<union> catch_live cfg succs_fn lv b)"

definition required_at ::
  "LocalDce \<Rightarrow> ControlFlowGraph \<Rightarrow> (block_id \<Rightarrow> edge list) \<Rightarrow>
   (block_id \<Rightarrow> instruction \<Rightarrow> bool) \<Rightarrow> block_liveness \<Rightarrow> block_id \<Rightarrow> nat \<Rightarrow> bool" where
  "required_at dce cfg succs_fn mbr lv b k =
     block_req dce cfg mbr b (insns_of cfg b ! k) (live_at dce cfg succs_fn mbr lv b (Suc k))"

text \<open>
  "An instruction's input registers are live if (a) it has side effects, or (b) its output
  registers are live." For the analysis an instruction has side effects when it is kept
  whatever is live after it: it has an intrinsic side effect, it may throw inside a block
  guarded by a catch handler, or it is a call that the purity oracle does not certify.
\<close>

definition has_side_effects ::
  "LocalDce \<Rightarrow> ControlFlowGraph \<Rightarrow> block_id \<Rightarrow> instruction \<Rightarrow> bool" where
  "has_side_effects dce cfg b inst =
     (case callee inst of
        None \<Rightarrow> side_effect inst \<or> (may_throw inst \<and> catch_edges cfg (succs_of cfg b) \<noteq> [])
      | Some c \<Rightarrow> \<not> assumenosideeffects dce c)"

text \<open>
  A path from position \<open>k\<close> of block \<open>b\<close> on which bit \<open>r\<close> is read before it is next
  written, by any instruction at all. The path runs through the blocks of \<open>A\<close>: it steps
  over an instruction that does not write \<open>r\<close>, follows an edge at the end of a block, or
  leaves a block for a catch handler by a throw edge at any position ("any instruction
  inside a try region can jump to a catch block").
\<close>

inductive read_path ::
  "ControlFlowGraph \<Rightarrow> block_id set \<Rightarrow> (block_id \<Rightarrow> edge list) \<Rightarrow> nat \<Rightarrow> block_id \<Rightarrow> nat \<Rightarrow> bool"
  for cfg A succs_fn r
where
  read_here:
    "b \<in> A \<Longrightarrow> k < length (insns_of cfg b) \<Longrightarrow>
     r \<in> uses (num_regs cfg) (insns_of cfg b ! k) \<Longrightarrow>
     read_path cfg A succs_fn r b k"
| read_next:
    "b \<in> A \<Longrightarrow> k < length (insns_of cfg b) \<Longrightarrow>
     r \<notin> defs (num_regs cfg) (insns_of cfg b ! k) \<Longrightarrow>
     read_path cfg A succs_fn r b (Suc k) \<Longrightarrow>
     read_path cfg A succs_fn r b k"
| read_edge:
    "b \<in> A \<Longrightarrow> e \<in> set (succs_fn b) \<Longrightarrow>
     read_path cfg A succs_fn r (target e) 0 \<Longrightarrow>
     read_path cfg A succs_fn r b (length (insns_of cfg b))"
| read_throw:
    "b \<in> A \<Longrightarrow> k \<le> length (insns_of cfg b) \<Longrightarrow> e \<in> set (succs_fn b) \<Longrightarrow>
     kind e = EDGE_THROW \<Longrightarrow> is_catch_block cfg (target e) \<Longrightarrow>
     read_path cfg A succs_fn r (target e) 0 \<Longrightarrow>
     read_path cfg A succs_fn r b k"

text \<open>
  The same paths, where a read counts only if the reading instruction may be required by
  the caller's policy and either has side effects or writes a bit that is, in turn, read
  on such a path from the position after it (rule \<open>path_output\<close>). Nothing in this
  definition refers to what the analysis computes.
\<close>

inductive live_path ::
  "LocalDce \<Rightarrow> ControlFlowGraph \<Rightarrow> block_id set \<Rightarrow> (block_id \<Rightarrow> edge list) \<Rightarrow>
   (block_id \<Rightarrow> instruction \<Rightarrow> bool) \<Rightarrow> nat \<Rightarrow> block_id \<Rightarrow> nat \<Rightarrow> bool"
  for dce cfg A succs_fn mbr
where
  path_effect:
    "b \<in> A \<Longrightarrow> k < length (insns_of cfg b) \<Longrightarrow> mbr b (insns_of cfg b ! k) \<Longrightarrow>
     has_side_effects dce cfg b (insns_of cfg b ! k) \<Longrightarrow>
     r \<in> uses (num_regs cfg) (insns_of cfg b ! k) \<Longrightarrow>
     live_path dce cfg A succs_fn mbr r b k"
| path_output:
    "b \<in> A \<Longrightarrow> k < length (insns_of cfg b) \<Longrightarrow> mbr b (insns_of cfg b ! k) \<Longrightarrow>
     d \<in> defs (num_regs cfg) (insns_of cfg b ! k) \<Longrightarrow>
     live_path dce cfg A succs_fn mbr d b (Suc k) \<Longrightarrow>
     r \<in> uses (num_regs cfg) (insns_of cfg b ! k) \<Longrightarrow>
     live_path dce cfg A succs_fn mbr r b k"
| path_next:
    "b \<in> A \<Longrightarrow> k < length (insns_of cfg b) \<Longrightarrow>
     r \<notin> defs (num_regs cfg) (insns_of cfg b ! k) \<Longrightarrow>
     live_path dce cfg A succs_fn mbr r b (Suc k) \<Longrightarrow>
     live_path dce cfg A succs_fn mbr r b k"
| path_edge:
    "b \<in> A \<Longrightarrow> e \<in> set (succs_fn b) \<Longrightarrow>
     live_path dce cfg A succs_fn mbr r (target e) 0 \<Longrightarrow>
     live_path dce cfg A succs_fn mbr r b (length (insns_of cfg b))"
| path_throw:
    "b \<in> A \<Longrightarrow> k \<le> length (insns_of cfg b) \<Longrightarrow> e \<in> set (succs_fn b) \<Longrightarrow>
     kind e = EDGE_THROW \<Longrightarrow> is_catch_block cfg (target e) \<Longrightarrow>
     live_path dce cfg A succs_fn mbr r (target e) 0 \<Longrightarrow>
     live_path dce cfg A succs_fn mbr r b k"

text \<open>
  The analysed blocks contain every successor of theirs, as they do when a whole graph
  is analysed; then no path leaves them.
\<close>

definition succs_closed :: "block_id list \<Rightarrow> (block_id \<Rightarrow> edge list) \<Rightarrow> bool" where
  "succs_closed bs succs_fn = (\<forall>b \<in> set bs. \<forall>e \<in> set (succs_fn b). target e \<in> set bs)"

text \<open>Invariants of the iteration.\<close>

definition post_fixed ::
  "LocalDce \<Rightarrow> ControlFlowGraph \<Rightarrow> (block_id \<Rightarrow> edge list) \<Rightarrow>
   (block_id \<Rightarrow> instruction \<Rightarrow> bool) \<Rightarrow> block_id list \<Rightarrow> block_liveness \<Rightarrow> bool" where
  "post_fixed dce cfg succs_fn mbr bs lv =
     (\<forall>b \<in> set bs. lv b \<subseteq> transfer dce cfg succs_fn mbr lv b)"

definition in_range :: "ControlFlowGraph \<Rightarrow> block_id list \<Rightarrow> block_liveness \<Rightarrow> bool" where
  "in_range cfg bs lv = ((\<forall>b. lv b \<subseteq> {..num_regs cfg}) \<and> (\<forall>b. b \<notin> set bs \<longrightarrow> lv b = {}))"

definition total_bits :: "block_id list \<Rightarrow> block_liveness \<Rightarrow> nat" where
  "total_bits bs lv = (\<Sum>b \<in> set bs. card (lv b))"

definition justified ::
  "LocalDce \<Rightarrow> ControlFlowGraph \<Rightarrow> block_id list \<Rightarrow> (block_id \<Rightarrow> edge list) \<Rightarrow>
   (block_id \<Rightarrow> instruction \<Rightarrow> bool) \<Rightarrow> block_liveness \<Rightarrow> bool" where
  "justified dce cfg bs succs_fn mbr lv =
     (\<forall>c r. r \<in> lv c \<longrightarrow> live_path dce cfg (set bs) succs_fn mbr r c 0)"

section \<open>Example graphs\<close>

text \<open>An engine with no pure methods and no override graph; the default requirement policy.\<close>

definition no_pure_methods :: LocalDce where
  "no_pure_methods = LocalDce_new {} None False"

definition any_instruction :: "block_id \<Rightarrow> instruction \<Rightarrow> bool" where
  "any_instruction b i = True"

text \<open>One block: \<open>r1 = add r0, r0\<close>, whose result nobody reads, then a return.\<close>

definition dead_read_cfg :: ControlFlowGraph where
  "dead_read_cfg =
     \<lparr> num_regs = 2,
       blocks =
         [\<lparr> insns =
              [\<lparr> opcode = 144, dest = Some (Reg 1), srcs = [Reg 0, Reg 0], side_effect = False,
                  may_throw = False, callee = None, allocation = None \<rparr>,
               \<lparr> opcode = 14, dest = None, srcs = [], side_effect = True,
                  may_throw = False, callee = None, allocation = None \<rparr>],
            succs = [],
            is_catch = False \<rparr>] \<rparr>"

text \<open>
  Block 0 defines \<open>r2\<close> by an instruction that may throw, inside a try region whose handler
  is block 2, which reads \<open>r2\<close>; block 1 is the normal exit.
\<close>

definition try_cfg :: ControlFlowGraph where
  "try_cfg =
     \<lparr> num_regs = 3,
       blocks =
         [\<lparr> insns =
              [\<lparr> opcode = 34, dest = Some (Reg 2), srcs = [], side_effect = False,
                  may_throw = True, callee = None, allocation = Some 0 \<rparr>],
            succs = [\<lparr> kind = EDGE_GOTO, src = 0, target = 1 \<rparr>,
                     \<lparr> kind = EDGE_THROW, src = 0, target = 2 \<rparr>],
            is_catch = False \<rparr>,
          \<lparr> insns =
              [\<lparr> opcode = 14, dest = None, srcs = [], side_effect = True,
                  may_throw = False, callee = None, allocation = None \<rparr>],
            succs = [],
            is_catch = False \<rparr>,
          \<lparr> insns =
              [\<lparr> opcode = 39, dest = None, srcs = [Reg 2], side_effect = True,
                  may_throw = True, callee = None, allocation = None \<rparr>],
            succs = [],
            is_catch = True \<rparr>] \<rparr>"

text \<open>
  One block: a call of method 7, the move of its result into \<open>r0\<close>, and the return of
  \<open>r0\<close>; and an engine for which method 7 is pure.
\<close>

definition call_cfg :: ControlFlowGraph where
  "call_cfg =
     \<lparr> num_regs = 1,
       blocks =
         [\<lparr> insns =
              [\<lparr> opcode = 113, dest = None, srcs = [], side_effect = True,
                  may_throw = True, callee = Some \<lparr> callee_ref = 7, callee_virtual = False \<rparr>,
                  allocation = None \<rparr>,
               \<lparr> opcode = 10, dest = Some (Reg 0), srcs = [Result], side_effect = False,
                  may_throw = False, callee = None, allocation = None \<rparr>,
               \<lparr> opcode = 15, dest = None, srcs = [Reg 0], side_effect = True,
                  may_throw = False, callee = None, allocation = None \<rparr>],
            succs = [],
            is_catch = False \<rparr>] \<rparr>"

definition pure_callee :: LocalDce where
  "pure_callee = LocalDce_new {7} None False"

section \<open>Properties of the statistics\<close>

lemma stats_add_fields:
  "npe_instruction_count (stats_add a b) = npe_instruction_count a + npe_instruction_count b"
  "dead_instruction_count (stats_add a b) = dead_instruction_count a + dead_instruction_count b"
  "unreachable_instruction_count (stats_add a b) =
     unreachable_instruction_count a + unreachable_instruction_count b"
  "aliased_new_instances (stats_add a b) = aliased_new_instances a + aliased_new_instances b"
  "normalized_new_instances (stats_add a b) =
     normalized_new_instances a + normalized_new_instances b"
  by (simp_all add: stats_add_def)

lemma size_t_add_wraps: "unat (x + y :: size_t) = (unat x + unat y) mod 2 ^ 64"
  by (simp add: unat_word_ariths)

text \<open>
  Claim C9. Merging two \<^verbatim>\<open>Stats\<close> values with \<^verbatim>\<open>operator+=\<close> adds each of the five counters
  on its own (as \<^verbatim>\<open>size_t\<close> addition, that is modulo \<open>2^64\<close>), and the merge is associative
  and commutative.
\<close>

theorem stats_add_commutative_monoid:
  fixes a b c :: Stats
  shows "npe_instruction_count (stats_add a b) =
           npe_instruction_count a + npe_instruction_count b
       \<and> dead_instruction_count (stats_add a b) =
           dead_instruction_count a + dead_instruction_count b
       \<and> unreachable_instruction_count (stats_add a b) =
           unreachable_instruction_count a + unreachable_instruction_count b
       \<and> aliased_new_instances (stats_add a b) =
           aliased_new_instances a + aliased_new_instances b
       \<and> normalized_new_instances (stats_add a b) =
           normalized_new_instances a + normalized_new_instances b
       \<and> unat (npe_instruction_count (stats_add a b)) =
           (unat (npe_instruction_count a) + unat (npe_instruction_count b)) mod 2 ^ 64
       \<and> unat (dead_instruction_count (stats_add a b)) =
           (unat (dead_instruction_count a) + unat (dead_instruction_count b)) mod 2 ^ 64
       \<and> unat (unreachable_instruction_count (stats_add a b)) =
           (unat (unreachable_instruction_count a) + unat (unreachable_instruction_count b))
             mod 2 ^ 64
       \<and> unat (aliased_new_instances (stats_add a b)) =
           (unat (aliased_new_instances a) + unat (aliased_new_instances b)) mod 2 ^ 64
       \<and> unat (normalized_new_instances (stats_add a b)) =
           (unat (normalized_new_instances a) + unat (normalized_new_instances b)) mod 2 ^ 64
       \<and> stats_add a (stats_add b c) = stats_add (stats_add a b) c
       \<and> stats_add a b = stats_add b a"
proof -
  have assoc: "stats_add a (stats_add b c) = stats_add (stats_add a b) c"
    by (simp add: stats_add_def add.assoc)
  have comm: "stats_add a b = stats_add b a"
    by (simp add: stats_add_def add.commute)
  show ?thesis
    by (intro conjI stats_add_fields assoc comm)
       (simp_all only: stats_add_fields size_t_add_wraps)
qed

text \<open>
  Claim C10. A default-constructed \<^verbatim>\<open>Stats\<close> has all five counters equal to zero, and it is
  a left and a right identity of the merge: merging it into a value, or a value into it,
  gives that value's counters.
\<close>

theorem stats_default_identity:
  fixes a :: Stats
  shows "npe_instruction_count Stats_default = 0
       \<and> dead_instruction_count Stats_default = 0
       \<and> unreachable_instruction_count Stats_default = 0
       \<and> aliased_new_instances Stats_default = 0
       \<and> normalized_new_instances Stats_default = 0
       \<and> stats_add a Stats_default = a
       \<and> stats_add Stats_default a = a"
  by (simp add: stats_add_def Stats_default_def)

section \<open>Monotonicity of the sweep\<close>

lemma fst_walk_block: "fst (walk_block req n T k is bl) = live_before req n T is bl"
proof (induction "is" arbitrary: k)
  case Nil
  show ?case by simp
next
  case (Cons i "is")
  obtain bl' dead where w: "walk_block req n T (Suc k) is bl = (bl', dead)"
    by (cases "walk_block req n T (Suc k) is bl")
  with Cons.IH [of "Suc k"] have "bl' = live_before req n T is bl" by simp
  with w show ?case by (simp add: Let_def)
qed

lemma transfer_eq:
  "transfer dce cfg succs_fn mbr lv b =
     live_before (block_req dce cfg mbr b) (num_regs cfg) (catch_live cfg succs_fn lv b)
       (insns_of cfg b) (live_out lv (succs_fn b) \<union> catch_live cfg succs_fn lv b)"
  by (simp add: transfer_def process_block_def fst_walk_block)

lemma dest_live_mono: "bl \<subseteq> bl' \<Longrightarrow> dest_live n i bl \<Longrightarrow> dest_live n i bl'"
  by (auto simp: dest_live_def)

text \<open>
  The classifier keeps an instruction iff it has side effects or something it writes is
  live after it.
\<close>

lemma is_required_iff:
  "is_required dce cfg b i bl \<longleftrightarrow>
     has_side_effects dce cfg b i \<or> dest_live (num_regs cfg) i bl"
  by (auto simp: is_required_def has_side_effects_def split: option.splits)

lemma is_required_mono:
  "bl \<subseteq> bl' \<Longrightarrow> is_required dce cfg b i bl \<Longrightarrow> is_required dce cfg b i bl'"
  by (auto simp: is_required_def split: option.splits if_splits dest: dest_live_mono)

lemma block_req_mono:
  "bl \<subseteq> bl' \<Longrightarrow> block_req dce cfg mbr b i bl \<Longrightarrow> block_req dce cfg mbr b i bl'"
  by (auto simp: block_req_def dest: is_required_mono)

lemma update_liveness_mono:
  "bl \<subseteq> bl' \<Longrightarrow> (r \<Longrightarrow> r') \<Longrightarrow> update_liveness n r i bl \<subseteq> update_liveness n r' i bl'"
  by (auto simp: update_liveness_def Let_def)

lemma live_before_mono:
  assumes "\<And>i bl bl'. bl \<subseteq> bl' \<Longrightarrow> req i bl \<Longrightarrow> req i bl'"
    and "T \<subseteq> T'" and "bl \<subseteq> bl'"
  shows "live_before req n T is bl \<subseteq> live_before req n T' is bl'"
proof (induction "is")
  case Nil
  show ?case using assms(3) by simp
next
  case (Cons i "is")
  let ?a = "live_before req n T is bl" and ?b = "live_before req n T' is bl'"
  have "update_liveness n (req i ?a) i ?a \<subseteq> update_liveness n (req i ?b) i ?b"
    using Cons.IH assms(1) by (intro update_liveness_mono) auto
  then show ?case using assms(2) by (auto simp: Let_def)
qed

lemma live_out_mono: "lv \<le> lv' \<Longrightarrow> live_out lv es \<subseteq> live_out lv' es"
  by (auto simp: live_out_def le_fun_def)

lemma transfer_mono:
  assumes "lv \<le> lv'"
  shows "transfer dce cfg succs_fn mbr lv b \<subseteq> transfer dce cfg succs_fn mbr lv' b"
  unfolding transfer_eq
proof (rule live_before_mono)
  show "catch_live cfg succs_fn lv b \<subseteq> catch_live cfg succs_fn lv' b"
    using assms by (simp add: catch_live_def live_out_mono)
  then show "live_out lv (succs_fn b) \<union> catch_live cfg succs_fn lv b
      \<subseteq> live_out lv' (succs_fn b) \<union> catch_live cfg succs_fn lv' b"
    using live_out_mono [OF assms, of "succs_fn b"] by auto
qed (rule block_req_mono)

lemma step_post_fixed:
  assumes "post_fixed dce cfg succs_fn mbr bs lv" and "b \<in> set bs"
  shows "post_fixed dce cfg succs_fn mbr bs (lv(b := transfer dce cfg succs_fn mbr lv b))"
    and "lv \<le> lv(b := transfer dce cfg succs_fn mbr lv b)"
proof -
  let ?lv = "lv(b := transfer dce cfg succs_fn mbr lv b)"
  show le: "lv \<le> ?lv"
    using assms by (auto simp: le_fun_def post_fixed_def)
  show "post_fixed dce cfg succs_fn mbr bs ?lv"
    unfolding post_fixed_def
  proof
    fix c assume c: "c \<in> set bs"
    have "?lv c \<subseteq> transfer dce cfg succs_fn mbr lv c"
      using assms c by (auto simp: post_fixed_def)
    also have "\<dots> \<subseteq> transfer dce cfg succs_fn mbr ?lv c"
      by (rule transfer_mono [OF le])
    finally show "?lv c \<subseteq> transfer dce cfg succs_fn mbr ?lv c" .
  qed
qed

lemma sweep_Cons:
  "sweep dce cfg succs_fn mbr (b # bs) (lv, changed, dead) =
     sweep dce cfg succs_fn mbr bs
       (lv(b := transfer dce cfg succs_fn mbr lv b),
        changed \<or> transfer dce cfg succs_fn mbr lv b \<noteq> lv b,
        dead @ map (Pair b) (snd (process_block dce cfg succs_fn mbr lv b)))"
  by (simp add: transfer_def split: prod.splits)

lemma sweep_post_fixed:
  assumes "post_fixed dce cfg succs_fn mbr blks lv" and "set bs \<subseteq> set blks"
    and "sweep dce cfg succs_fn mbr bs (lv, c, d) = (lv', c', d')"
  shows "post_fixed dce cfg succs_fn mbr blks lv' \<and> lv \<le> lv' \<and> (c' \<longleftrightarrow> c \<or> lv' \<noteq> lv)"
  using assms
proof (induction bs arbitrary: lv c d)
  case Nil
  then show ?case by simp
next
  case (Cons b bs)
  let ?lv = "lv(b := transfer dce cfg succs_fn mbr lv b)"
  let ?c = "c \<or> transfer dce cfg succs_fn mbr lv b \<noteq> lv b"
  from Cons.prems have b: "b \<in> set blks" and bs: "set bs \<subseteq> set blks" by auto
  note st = step_post_fixed [OF Cons.prems(1) b]
  from Cons.prems(3) obtain d1 where
    sw: "sweep dce cfg succs_fn mbr bs (?lv, ?c, d1) = (lv', c', d')"
    by (simp add: sweep_Cons del: sweep.simps)
  have "post_fixed dce cfg succs_fn mbr blks lv' \<and> ?lv \<le> lv' \<and> (c' \<longleftrightarrow> ?c \<or> lv' \<noteq> ?lv)"
    by (rule Cons.IH [OF st(1) bs sw])
  then have ih: "post_fixed dce cfg succs_fn mbr blks lv'" "?lv \<le> lv'" "c' \<longleftrightarrow> ?c \<or> lv' \<noteq> ?lv"
    by blast+
  have le: "lv \<le> lv'" using st(2) ih(2) by (rule order_trans)
  have "c' \<longleftrightarrow> c \<or> lv' \<noteq> lv"
  proof (cases "transfer dce cfg succs_fn mbr lv b = lv b")
    case True
    then have "?lv = lv" by (simp add: fun_upd_idem_iff)
    with ih(3) True show ?thesis by simp
  next
    case False
    have "lv b \<subseteq> ?lv b" using st(2) unfolding le_fun_def by blast
    with False have "lv b \<subset> ?lv b" by auto
    moreover have "?lv b \<subseteq> lv' b" using ih(2) unfolding le_fun_def by blast
    ultimately have "lv' b \<noteq> lv b" by auto
    then have "lv' \<noteq> lv" by auto
    with ih(3) False show ?thesis by simp
  qed
  with ih(1) le show ?case by simp
qed

section \<open>Termination of the iteration\<close>

lemma bit_of_valid: "valid_register n r \<Longrightarrow> bit_of n r \<le> n"
  by (cases r) auto

lemma update_liveness_range:
  assumes "bl \<subseteq> {..n}" and "\<forall>s \<in> set (srcs i). valid_register n s"
  shows "update_liveness n r i bl \<subseteq> {..n}"
  using assms by (auto simp: update_liveness_def uses_def Let_def dest: bit_of_valid)

lemma live_before_range:
  assumes "\<forall>i \<in> set is. \<forall>s \<in> set (srcs i). valid_register n s"
    and "bl \<subseteq> {..n}" and "T \<subseteq> {..n}"
  shows "live_before req n T is bl \<subseteq> {..n}"
  using assms(1)
proof (induction "is")
  case Nil
  show ?case using assms(2) by simp
next
  case (Cons i "is")
  then have "live_before req n T is bl \<subseteq> {..n}" by simp
  then have "update_liveness n (req i (live_before req n T is bl)) i (live_before req n T is bl)
      \<subseteq> {..n}"
    using Cons.prems by (intro update_liveness_range) auto
  then show ?case using assms(3) by (simp add: Let_def)
qed

lemma live_out_range: "\<forall>b. lv b \<subseteq> {..n} \<Longrightarrow> live_out lv es \<subseteq> {..n}"
  by (auto simp: live_out_def)

lemma insns_of_valid:
  assumes "well_formed cfg bs" and "i \<in> set (insns_of cfg b)"
  shows "\<forall>s \<in> set (srcs i). valid_register (num_regs cfg) s"
proof -
  from assms(2) have "b < length (blocks cfg)" and "i \<in> set (insns (blocks cfg ! b))"
    by (auto simp: insns_of_def split: if_splits)
  moreover from this have "blocks cfg ! b \<in> set (blocks cfg)" by simp
  ultimately show ?thesis using assms(1) unfolding well_formed_def by blast
qed

lemma transfer_range:
  assumes "well_formed cfg bs" and "\<forall>b. lv b \<subseteq> {..num_regs cfg}"
  shows "transfer dce cfg succs_fn mbr lv b \<subseteq> {..num_regs cfg}"
  unfolding transfer_eq
proof (rule live_before_range)
  show "\<forall>i \<in> set (insns_of cfg b). \<forall>s \<in> set (srcs i). valid_register (num_regs cfg) s"
    using insns_of_valid [OF assms(1)] by blast
  show "catch_live cfg succs_fn lv b \<subseteq> {..num_regs cfg}"
    unfolding catch_live_def by (rule live_out_range [OF assms(2)])
  then show "live_out lv (succs_fn b) \<union> catch_live cfg succs_fn lv b \<subseteq> {..num_regs cfg}"
    using live_out_range [OF assms(2), of "succs_fn b"] by simp
qed

lemma sweep_in_range:
  assumes "well_formed cfg blks" and "in_range cfg blks lv" and "set bs \<subseteq> set blks"
    and "sweep dce cfg succs_fn mbr bs (lv, c, d) = (lv', c', d')"
  shows "in_range cfg blks lv'"
  using assms(2-)
proof (induction bs arbitrary: lv c d)
  case Nil
  then show ?case by simp
next
  case (Cons b bs)
  let ?lv = "lv(b := transfer dce cfg succs_fn mbr lv b)"
  from Cons.prems have b: "b \<in> set blks" and bs: "set bs \<subseteq> set blks" by auto
  from Cons.prems(1) have "\<forall>b. lv b \<subseteq> {..num_regs cfg}" by (simp add: in_range_def)
  from transfer_range [OF assms(1) this]
  have "transfer dce cfg succs_fn mbr lv b \<subseteq> {..num_regs cfg}" .
  with Cons.prems(1) b have r: "in_range cfg blks ?lv"
    by (auto simp: in_range_def)
  from Cons.prems(3) obtain c1 d1 where
    "sweep dce cfg succs_fn mbr bs (?lv, c1, d1) = (lv', c', d')"
    by (simp add: sweep_Cons del: sweep.simps)
  from Cons.IH [OF r bs this] show ?case .
qed

lemma total_bits_bound:
  assumes "in_range cfg bs lv"
  shows "total_bits bs lv \<le> (num_regs cfg + 1) * card (set bs)"
proof -
  have "card (lv b) \<le> num_regs cfg + 1" for b
  proof -
    have "lv b \<subseteq> {..num_regs cfg}" using assms by (simp add: in_range_def)
    then have "card (lv b) \<le> card {..num_regs cfg}" by (intro card_mono) auto
    then show ?thesis by simp
  qed
  then have "(\<Sum>b \<in> set bs. card (lv b)) \<le> (\<Sum>b \<in> set bs. num_regs cfg + 1)"
    by (intro sum_mono)
  then show ?thesis by (simp add: total_bits_def mult.commute)
qed

lemma total_bits_strict:
  assumes "in_range cfg bs lv" and "in_range cfg bs lv'" and "lv \<le> lv'" and "lv' \<noteq> lv"
  shows "total_bits bs lv < total_bits bs lv'"
proof -
  from assms(4) have "\<exists>b. lv' b \<noteq> lv b" by (simp add: fun_eq_iff)
  then obtain b where b: "lv' b \<noteq> lv b" ..
  with assms(1,2) have bin: "b \<in> set bs" by (auto simp: in_range_def)
  have fin: "finite (lv' c)" for c
    using assms(2) by (auto simp: in_range_def intro: finite_subset [of _ "{..num_regs cfg}"])
  have le: "lv c \<subseteq> lv' c" for c using assms(3) unfolding le_fun_def by blast
  have "card (lv c) \<le> card (lv' c)" for c
    by (rule card_mono [OF fin le])
  moreover have "card (lv b) < card (lv' b)"
    using b le [of b] by (intro psubset_card_mono [OF fin]) auto
  ultimately show ?thesis
    unfolding total_bits_def using bin
    by (intro sum_strict_mono_ex1) auto
qed

lemma sweep_lv_eq:
  "sweep dce cfg succs_fn mbr bs (lv, False, []) = (lv', c', d')
   \<Longrightarrow> sweep_lv dce cfg succs_fn mbr bs lv = lv'"
  by (simp add: sweep_lv_def)

lemma total_bits_not_full:
  assumes "in_range cfg bs lv" and "b \<in> set bs" and "r \<le> num_regs cfg" and "r \<notin> lv b"
  shows "total_bits bs lv < (num_regs cfg + 1) * card (set bs)"
proof -
  have le: "card (lv c) \<le> num_regs cfg + 1" for c
  proof -
    have "lv c \<subseteq> {..num_regs cfg}" using assms(1) by (simp add: in_range_def)
    then have "card (lv c) \<le> card {..num_regs cfg}" by (intro card_mono) auto
    then show ?thesis by simp
  qed
  have "lv b \<subset> {..num_regs cfg}"
    using assms(1,3,4) by (auto simp: in_range_def)
  then have "card (lv b) < card {..num_regs cfg}" by (intro psubset_card_mono) auto
  then have lt: "card (lv b) < num_regs cfg + 1" by simp
  have "(\<Sum>c \<in> set bs. card (lv c)) < (\<Sum>c \<in> set bs. num_regs cfg + 1)"
    using le lt assms(2) by (intro sum_strict_mono_ex1) auto
  then show ?thesis by (simp add: total_bits_def mult.commute)
qed

text \<open>
  The loop returns. From the state \<open>lv\<close> it makes \<open>k\<close> passes that each change the state
  and set at least one more bit, and one last pass that changes nothing.
\<close>

lemma fixpoint_loop_terminates:
  assumes wf: "well_formed cfg bs"
    and "post_fixed dce cfg succs_fn mbr bs lv" and "in_range cfg bs lv"
  shows "\<exists>lv' dead k. fixpoint_loop dce cfg succs_fn mbr bs lv n = Some (lv', dead, n + Suc k)
           \<and> k + total_bits bs lv \<le> total_bits bs lv'
           \<and> in_range cfg bs lv'
           \<and> lv' = (sweep_lv dce cfg succs_fn mbr bs ^^ k) lv
           \<and> sweep_lv dce cfg succs_fn mbr bs lv' = lv'
           \<and> (\<forall>j<k. (sweep_lv dce cfg succs_fn mbr bs ^^ j) lv
                  \<noteq> (sweep_lv dce cfg succs_fn mbr bs ^^ Suc j) lv)
           \<and> dead = snd (snd (sweep dce cfg succs_fn mbr bs (lv', False, [])))"
  using assms(2,3)
proof (induction "(num_regs cfg + 1) * card (set bs) - total_bits bs lv" arbitrary: lv n
    rule: less_induct)
  case less
  let ?f = "sweep_lv dce cfg succs_fn mbr bs"
  obtain lv1 c1 d1 where sw: "sweep dce cfg succs_fn mbr bs (lv, False, []) = (lv1, c1, d1)"
    by (cases "sweep dce cfg succs_fn mbr bs (lv, False, [])")
  from sweep_post_fixed [OF less.prems(1) subset_refl sw]
  have pf: "post_fixed dce cfg succs_fn mbr bs lv1" and le: "lv \<le> lv1" and c1: "c1 \<longleftrightarrow> lv1 \<noteq> lv"
    by simp_all
  have rg: "in_range cfg bs lv1"
    by (rule sweep_in_range [OF wf less.prems(2) subset_refl sw])
  have s1: "?f lv = lv1"
    by (rule sweep_lv_eq [OF sw])
  show ?case
  proof (cases c1)
    case False
    with c1 have eq: "lv1 = lv" by simp
    have "fixpoint_loop dce cfg succs_fn mbr bs lv n = Some (lv, d1, n + Suc 0)"
      using sw False eq by (subst fixpoint_loop.simps) simp
    moreover have "d1 = snd (snd (sweep dce cfg succs_fn mbr bs (lv, False, [])))"
      using sw by simp
    ultimately show ?thesis
      using s1 eq less.prems(2)
      by (intro exI [of _ lv] exI [of _ d1] exI [of _ 0]) simp
  next
    case True
    with c1 have ne: "lv1 \<noteq> lv" by simp
    have lt: "total_bits bs lv < total_bits bs lv1"
      by (rule total_bits_strict [OF less.prems(2) rg le ne])
    have bd: "total_bits bs lv1 \<le> (num_regs cfg + 1) * card (set bs)"
      by (rule total_bits_bound [OF rg])
    from lt bd have "(num_regs cfg + 1) * card (set bs) - total_bits bs lv1
        < (num_regs cfg + 1) * card (set bs) - total_bits bs lv" by arith
    from less.hyps [OF this pf rg, of "Suc n"]
    obtain lv' dead k where
      r: "fixpoint_loop dce cfg succs_fn mbr bs lv1 (Suc n) = Some (lv', dead, Suc n + Suc k)"
        "k + total_bits bs lv1 \<le> total_bits bs lv'"
        "in_range cfg bs lv'"
        "lv' = (?f ^^ k) lv1"
        "?f lv' = lv'"
        "\<forall>j<k. (?f ^^ j) lv1 \<noteq> (?f ^^ Suc j) lv1"
        "dead = snd (snd (sweep dce cfg succs_fn mbr bs (lv', False, [])))"
      by blast
    have "fixpoint_loop dce cfg succs_fn mbr bs lv n = Some (lv', dead, n + Suc (Suc k))"
      using sw True r(1) by (subst fixpoint_loop.simps) simp
    moreover have "Suc k + total_bits bs lv \<le> total_bits bs lv'"
      using r(2) lt by arith
    moreover have "lv' = (?f ^^ Suc k) lv"
      using r(4) s1 by (simp add: funpow_swap1)
    moreover have "\<forall>j<Suc k. (?f ^^ j) lv \<noteq> (?f ^^ Suc j) lv"
    proof (intro allI impI)
      fix j assume j: "j < Suc k"
      show "(?f ^^ j) lv \<noteq> (?f ^^ Suc j) lv"
      proof (cases j)
        case 0
        with ne s1 show ?thesis by simp
      next
        case (Suc j')
        with j r(6) have "(?f ^^ j') lv1 \<noteq> (?f ^^ Suc j') lv1" by simp
        with s1 Suc show ?thesis by (simp add: funpow_swap1)
      qed
    qed
    ultimately show ?thesis using r(3,5,7) by blast
  qed
qed

section \<open>Liveness and paths\<close>

lemma live_at_0: "live_at dce cfg succs_fn mbr lv b 0 = transfer dce cfg succs_fn mbr lv b"
  by (simp add: live_at_def transfer_eq)

lemma live_at_end:
  "length (insns_of cfg b) \<le> k \<Longrightarrow>
   live_at dce cfg succs_fn mbr lv b k = live_out lv (succs_fn b) \<union> catch_live cfg succs_fn lv b"
  by (simp add: live_at_def)

lemma live_at_step:
  assumes "k < length (insns_of cfg b)"
  shows "live_at dce cfg succs_fn mbr lv b k =
           update_liveness (num_regs cfg) (required_at dce cfg succs_fn mbr lv b k)
             (insns_of cfg b ! k) (live_at dce cfg succs_fn mbr lv b (Suc k))
           \<union> catch_live cfg succs_fn lv b"
proof -
  have "drop k (insns_of cfg b) = insns_of cfg b ! k # drop (Suc k) (insns_of cfg b)"
    using assms by (simp add: Cons_nth_drop_Suc)
  then show ?thesis by (simp add: live_at_def required_at_def Let_def)
qed

lemma catch_live_subset_live_at:
  assumes "k \<le> length (insns_of cfg b)"
  shows "catch_live cfg succs_fn lv b \<subseteq> live_at dce cfg succs_fn mbr lv b k"
proof (cases "k < length (insns_of cfg b)")
  case True
  then show ?thesis by (simp add: live_at_step)
next
  case False
  then show ?thesis by (simp add: live_at_end)
qed

lemma catch_liveD:
  assumes "r \<in> catch_live cfg succs_fn lv b"
  obtains e where "e \<in> set (succs_fn b)" "kind e = EDGE_THROW" "is_catch_block cfg (target e)"
    "r \<in> lv (target e)"
  using assms by (auto simp: catch_live_def live_out_def catch_edges_def)

lemma catch_liveI:
  "e \<in> set (succs_fn b) \<Longrightarrow> kind e = EDGE_THROW \<Longrightarrow> is_catch_block cfg (target e) \<Longrightarrow>
   r \<in> lv (target e) \<Longrightarrow> r \<in> catch_live cfg succs_fn lv b"
  by (auto simp: catch_live_def live_out_def catch_edges_def)

lemma update_livenessD:
  assumes "r \<in> update_liveness n req i bl"
  shows "(req \<and> r \<in> uses n i) \<or> (r \<in> bl \<and> r \<notin> defs n i)"
  using assms by (auto simp: update_liveness_def Let_def split: if_splits)

lemma update_livenessI:
  "req \<Longrightarrow> r \<in> uses n i \<Longrightarrow> r \<in> update_liveness n req i bl"
  "r \<in> bl \<Longrightarrow> r \<notin> defs n i \<Longrightarrow> r \<in> update_liveness n req i bl"
  by (auto simp: update_liveness_def Let_def)

lemma required_at_iff:
  "required_at dce cfg succs_fn mbr lv b k \<longleftrightarrow>
     mbr b (insns_of cfg b ! k)
     \<and> (has_side_effects dce cfg b (insns_of cfg b ! k)
        \<or> (\<exists>d \<in> defs (num_regs cfg) (insns_of cfg b ! k).
              d \<in> live_at dce cfg succs_fn mbr lv b (Suc k)))"
  by (auto simp: required_at_def block_req_def is_required_iff dest_live_def)

text \<open>
  Soundness: when every bit of the block states is justified by a path, so is every bit
  that a pass computes from them, at every position.
\<close>

lemma live_at_path:
  assumes P: "justified dce cfg bs succs_fn mbr lv" and b: "b \<in> set bs"
    and "k \<le> length (insns_of cfg b)" and "r \<in> live_at dce cfg succs_fn mbr lv b k"
  shows "live_path dce cfg (set bs) succs_fn mbr r b k"
  using assms(3,4)
proof (induction "length (insns_of cfg b) - k" arbitrary: k r)
  case 0
  then have k: "k = length (insns_of cfg b)" by simp
  with 0 have "r \<in> live_out lv (succs_fn b) \<union> catch_live cfg succs_fn lv b"
    by (simp add: live_at_end)
  then have "\<exists>e \<in> set (succs_fn b). r \<in> lv (target e)"
    by (auto simp: live_out_def catch_live_def catch_edges_def)
  then obtain e where e: "e \<in> set (succs_fn b)" "r \<in> lv (target e)" ..
  from P e(2) have "live_path dce cfg (set bs) succs_fn mbr r (target e) 0"
    by (simp add: justified_def)
  with b e(1) show ?case unfolding k by (rule path_edge)
next
  case (Suc m)
  then have k: "k < length (insns_of cfg b)" by simp
  have ih: "live_path dce cfg (set bs) succs_fn mbr d b (Suc k)"
    if "d \<in> live_at dce cfg succs_fn mbr lv b (Suc k)" for d
  proof (rule Suc.hyps(1))
    show "m = length (insns_of cfg b) - Suc k" using Suc.hyps(2) by simp
    show "Suc k \<le> length (insns_of cfg b)" using k by simp
    show "d \<in> live_at dce cfg succs_fn mbr lv b (Suc k)" by (rule that)
  qed
  from Suc.prems(2) consider
      (catch) "r \<in> catch_live cfg succs_fn lv b"
    | (upd) "r \<in> update_liveness (num_regs cfg) (required_at dce cfg succs_fn mbr lv b k)
             (insns_of cfg b ! k) (live_at dce cfg succs_fn mbr lv b (Suc k))"
    by (auto simp: live_at_step [OF k])
  then show ?case
  proof cases
    case catch
    then obtain e where e: "e \<in> set (succs_fn b)" "kind e = EDGE_THROW"
      "is_catch_block cfg (target e)" "r \<in> lv (target e)"
      by (rule catch_liveD)
    from P e(4) have "live_path dce cfg (set bs) succs_fn mbr r (target e) 0"
      by (simp add: justified_def)
    with b Suc.prems(1) e(1,2,3) show ?thesis by (rule path_throw)
  next
    case upd
    from update_livenessD [OF this] show ?thesis
    proof
      assume a: "required_at dce cfg succs_fn mbr lv b k
        \<and> r \<in> uses (num_regs cfg) (insns_of cfg b ! k)"
      then have u: "r \<in> uses (num_regs cfg) (insns_of cfg b ! k)"
        and m: "mbr b (insns_of cfg b ! k)"
        and c: "has_side_effects dce cfg b (insns_of cfg b ! k)
          \<or> (\<exists>d \<in> defs (num_regs cfg) (insns_of cfg b ! k).
                d \<in> live_at dce cfg succs_fn mbr lv b (Suc k))"
        by (simp_all add: required_at_iff)
      from c show ?thesis
      proof
        assume "has_side_effects dce cfg b (insns_of cfg b ! k)"
        with b k m show ?thesis using u by (rule path_effect)
      next
        assume "\<exists>d \<in> defs (num_regs cfg) (insns_of cfg b ! k).
          d \<in> live_at dce cfg succs_fn mbr lv b (Suc k)"
        then obtain d where d: "d \<in> defs (num_regs cfg) (insns_of cfg b ! k)"
          "d \<in> live_at dce cfg succs_fn mbr lv b (Suc k)" ..
        from b k m d(1) ih [OF d(2)] u show ?thesis by (rule path_output)
      qed
    next
      assume a: "r \<in> live_at dce cfg succs_fn mbr lv b (Suc k)
        \<and> r \<notin> defs (num_regs cfg) (insns_of cfg b ! k)"
      then have n: "r \<notin> defs (num_regs cfg) (insns_of cfg b ! k)"
        and l: "r \<in> live_at dce cfg succs_fn mbr lv b (Suc k)" by simp_all
      from b k n ih [OF l] show ?thesis by (rule path_next)
    qed
  qed
qed

text \<open>Completeness: at a fixed point, every path makes its bit live.\<close>

lemma path_live_at:
  assumes fp: "\<And>c. c \<in> set bs \<Longrightarrow> transfer dce cfg succs_fn mbr lvs c = lvs c"
    and "live_path dce cfg (set bs) succs_fn mbr r b k"
  shows "b \<in> set bs \<and> r \<in> live_at dce cfg succs_fn mbr lvs b k"
  using assms(2)
proof (induction rule: live_path.induct)
  case (path_effect b k r)
  then have "required_at dce cfg succs_fn mbr lvs b k" by (simp add: required_at_iff)
  with path_effect show ?case by (simp add: live_at_step update_livenessI(1))
next
  case (path_output b k d r)
  then have "required_at dce cfg succs_fn mbr lvs b k" by (auto simp: required_at_iff)
  with path_output show ?case by (simp add: live_at_step update_livenessI(1))
next
  case (path_next b k r)
  then show ?case by (simp add: live_at_step update_livenessI(2))
next
  case (path_edge b e r)
  then have "r \<in> lvs (target e)" using fp [of "target e"] by (simp add: live_at_0)
  with path_edge show ?case by (auto simp: live_at_end live_out_def)
next
  case (path_throw b k e r)
  then have "r \<in> lvs (target e)" using fp [of "target e"] by (simp add: live_at_0)
  with path_throw have "r \<in> catch_live cfg succs_fn lvs b" by (intro catch_liveI)
  with path_throw catch_live_subset_live_at [of k cfg b succs_fn lvs dce mbr] show ?case by auto
qed

text \<open>Paths and the blocks they run through.\<close>

lemma live_path_mono:
  assumes "A \<subseteq> A'" and "live_path dce cfg A succs_fn mbr r b k"
  shows "live_path dce cfg A' succs_fn mbr r b k"
  using assms(2)
proof (induction rule: live_path.induct)
  case (path_effect b k r)
  with assms(1) show ?case by (intro live_path.path_effect) auto
next
  case (path_output b k d r)
  from path_output(1) assms(1) have "b \<in> A'" by auto
  from this path_output(2,3,4) path_output.IH path_output(6)
  show ?case by (rule live_path.path_output)
next
  case (path_next b k r)
  from path_next(1) assms(1) have "b \<in> A'" by auto
  from this path_next(2,3) path_next.IH show ?case by (rule live_path.path_next)
next
  case (path_edge b e r)
  from path_edge(1) assms(1) have "b \<in> A'" by auto
  from this path_edge(2) path_edge.IH show ?case by (rule live_path.path_edge)
next
  case (path_throw b k e r)
  from path_throw(1) assms(1) have "b \<in> A'" by auto
  from this path_throw(2,3,4,5) path_throw.IH show ?case by (rule live_path.path_throw)
qed

lemma live_path_closed:
  assumes cl: "succs_closed bs succs_fn"
    and "live_path dce cfg UNIV succs_fn mbr r b k" and "b \<in> set bs"
  shows "live_path dce cfg (set bs) succs_fn mbr r b k"
  using assms(2,3)
proof (induction rule: live_path.induct)
  case (path_effect b k r)
  then show ?case by (intro live_path.path_effect) auto
next
  case (path_output b k d r)
  from path_output.prems path_output(2,3,4) path_output.IH [OF path_output.prems]
    path_output(6)
  show ?case by (rule live_path.path_output)
next
  case (path_next b k r)
  from path_next.prems path_next(2,3) path_next.IH [OF path_next.prems]
  show ?case by (rule live_path.path_next)
next
  case (path_edge b e r)
  from cl path_edge.prems path_edge(2) have "target e \<in> set bs"
    unfolding succs_closed_def by blast
  from path_edge.prems path_edge(2) path_edge.IH [OF this]
  show ?case by (rule live_path.path_edge)
next
  case (path_throw b k e r)
  from cl path_throw.prems path_throw(3) have "target e \<in> set bs"
    unfolding succs_closed_def by blast
  from path_throw.prems path_throw(2,3,4,5) path_throw.IH [OF this]
  show ?case by (rule live_path.path_throw)
qed

text \<open>A path that makes a bit live is, in particular, a path on which the bit is read.\<close>

lemma live_path_read_path:
  assumes "live_path dce cfg A succs_fn mbr r b k"
  shows "read_path cfg A succs_fn r b k"
  using assms
proof (induction rule: live_path.induct)
  case (path_effect b k r)
  then show ?case by (intro read_here) auto
next
  case (path_output b k d r)
  from path_output(1,2,6) show ?case by (rule read_here)
next
  case (path_next b k r)
  from path_next(1,2,3) path_next.IH show ?case by (rule read_next)
next
  case (path_edge b e r)
  from path_edge(1,2) path_edge.IH show ?case by (rule read_edge)
next
  case (path_throw b k e r)
  from path_throw(1,2,3,4,5) path_throw.IH show ?case by (rule read_throw)
qed

lemma sweep_fixed:
  assumes "post_fixed dce cfg succs_fn mbr blks lv" and "set bs \<subseteq> set blks"
    and "sweep dce cfg succs_fn mbr bs (lv, c, d) = (lv, c', d')"
  shows "\<forall>b \<in> set bs. transfer dce cfg succs_fn mbr lv b = lv b"
  using assms
proof (induction bs arbitrary: c d)
  case Nil
  then show ?case by simp
next
  case (Cons b bs)
  let ?lv = "lv(b := transfer dce cfg succs_fn mbr lv b)"
  from Cons.prems have b: "b \<in> set blks" and bs: "set bs \<subseteq> set blks" by auto
  note st = step_post_fixed [OF Cons.prems(1) b]
  from Cons.prems(3) obtain c1 d1 where
    sw: "sweep dce cfg succs_fn mbr bs (?lv, c1, d1) = (lv, c', d')"
    by (simp add: sweep_Cons del: sweep.simps)
  from sweep_post_fixed [OF st(1) bs sw] have "?lv \<le> lv" by simp
  then have eq: "?lv = lv" using st(2) by (rule antisym)
  then have tb: "transfer dce cfg succs_fn mbr lv b = lv b"
    by (simp add: fun_upd_idem_iff)
  from sw eq have "sweep dce cfg succs_fn mbr bs (lv, c1, d1) = (lv, c', d')" by simp
  from Cons.IH [OF Cons.prems(1) bs this] tb show ?case by simp
qed

lemma sweep_lv_fixed:
  assumes "post_fixed dce cfg succs_fn mbr bs lv" and "sweep_lv dce cfg succs_fn mbr bs lv = lv"
    and "b \<in> set bs"
  shows "transfer dce cfg succs_fn mbr lv b = lv b"
proof -
  obtain lv1 c1 d1 where sw: "sweep dce cfg succs_fn mbr bs (lv, False, []) = (lv1, c1, d1)"
    by (cases "sweep dce cfg succs_fn mbr bs (lv, False, [])")
  with assms(2) have "lv1 = lv" by (simp add: sweep_lv_def)
  with sw sweep_fixed [OF assms(1) subset_refl, of False "[]" c1 d1] assms(3)
  show ?thesis by simp
qed

lemma post_fixed_sweep_lv:
  assumes "post_fixed dce cfg succs_fn mbr bs lv"
  shows "post_fixed dce cfg succs_fn mbr bs (sweep_lv dce cfg succs_fn mbr bs lv)"
    and "lv \<le> sweep_lv dce cfg succs_fn mbr bs lv"
proof -
  obtain lv1 c1 d1 where sw: "sweep dce cfg succs_fn mbr bs (lv, False, []) = (lv1, c1, d1)"
    by (cases "sweep dce cfg succs_fn mbr bs (lv, False, [])")
  from sweep_post_fixed [OF assms subset_refl sw] sweep_lv_eq [OF sw]
  show "post_fixed dce cfg succs_fn mbr bs (sweep_lv dce cfg succs_fn mbr bs lv)"
    and "lv \<le> sweep_lv dce cfg succs_fn mbr bs lv" by simp_all
qed

lemma post_fixed_after_sweeps:
  "post_fixed dce cfg succs_fn mbr bs (after_sweeps dce cfg bs succs_fn mbr k)"
proof (induction k)
  case 0
  show ?case by (simp add: after_sweeps_def post_fixed_def)
next
  case (Suc k)
  from post_fixed_sweep_lv(1) [OF Suc] show ?case by (simp add: after_sweeps_def)
qed

lemma after_sweeps_mono:
  "after_sweeps dce cfg bs succs_fn mbr k \<le> after_sweeps dce cfg bs succs_fn mbr (Suc k)"
  using post_fixed_sweep_lv(2) [OF post_fixed_after_sweeps [of dce cfg succs_fn mbr bs k]]
  by (simp add: after_sweeps_def)

lemma justified_step:
  assumes j: "justified dce cfg bs succs_fn mbr lv" and b: "b \<in> set bs"
  shows "justified dce cfg bs succs_fn mbr (lv(b := transfer dce cfg succs_fn mbr lv b))"
proof -
  have "live_path dce cfg (set bs) succs_fn mbr r b 0"
    if "r \<in> transfer dce cfg succs_fn mbr lv b" for r
    using that by (intro live_at_path [OF j b]) (simp_all add: live_at_0)
  with j show ?thesis by (auto simp: justified_def)
qed

lemma justified_sweep:
  assumes "justified dce cfg blks succs_fn mbr lv" and "set bs \<subseteq> set blks"
  shows "justified dce cfg blks succs_fn mbr (fst (sweep dce cfg succs_fn mbr bs (lv, c, d)))"
  using assms
proof (induction bs arbitrary: lv c d)
  case Nil
  then show ?case by simp
next
  case (Cons b bs)
  from Cons.prems have b: "b \<in> set blks" and bs: "set bs \<subseteq> set blks" by auto
  have "justified dce cfg blks succs_fn mbr (lv(b := transfer dce cfg succs_fn mbr lv b))"
    by (rule justified_step [OF Cons.prems(1) b])
  then show ?case unfolding sweep_Cons by (rule Cons.IH [OF _ bs])
qed

lemma justified_after_sweeps:
  "justified dce cfg bs succs_fn mbr (after_sweeps dce cfg bs succs_fn mbr k)"
proof (induction k)
  case 0
  show ?case by (simp add: after_sweeps_def justified_def)
next
  case (Suc k)
  from justified_sweep [OF Suc subset_refl, where c = False and d = "[]"]
  show ?case by (simp add: after_sweeps_def sweep_lv_def)
qed

text \<open>The loop from the initial state.\<close>

lemma in_range_init: "in_range cfg bs (\<lambda>_. {})"
  by (simp add: in_range_def)

lemma post_fixed_init: "post_fixed dce cfg succs_fn mbr bs (\<lambda>_. {})"
  by (simp add: post_fixed_def)

lemma liveness_fixpoint_result:
  assumes wf: "well_formed cfg bs"
  shows "\<exists>lv dead k. liveness_fixpoint dce cfg bs succs_fn mbr = Some (Inr (lv, dead, Suc k))
           \<and> k \<le> total_bits bs lv
           \<and> in_range cfg bs lv
           \<and> lv = after_sweeps dce cfg bs succs_fn mbr k
           \<and> sweep_lv dce cfg succs_fn mbr bs lv = lv
           \<and> (\<forall>j<k. after_sweeps dce cfg bs succs_fn mbr j
                  \<noteq> after_sweeps dce cfg bs succs_fn mbr (Suc j))"
proof -
  from fixpoint_loop_terminates [OF wf post_fixed_init in_range_init, of dce succs_fn mbr 0]
  obtain lv dead k where
    "fixpoint_loop dce cfg succs_fn mbr bs (\<lambda>_. {}) 0 = Some (lv, dead, Suc k)"
    "k + total_bits bs (\<lambda>_. {}) \<le> total_bits bs lv"
    "in_range cfg bs lv"
    "lv = (sweep_lv dce cfg succs_fn mbr bs ^^ k) (\<lambda>_. {})"
    "sweep_lv dce cfg succs_fn mbr bs lv = lv"
    "\<forall>j<k. (sweep_lv dce cfg succs_fn mbr bs ^^ j) (\<lambda>_. {})
        \<noteq> (sweep_lv dce cfg succs_fn mbr bs ^^ Suc j) (\<lambda>_. {})"
    by auto
  then show ?thesis using wf
    by (intro exI [of _ lv] exI [of _ dead] exI [of _ k])
       (simp add: liveness_fixpoint_def after_sweeps_def)
qed

lemma liveness_fixpoint_InrD:
  assumes "liveness_fixpoint dce cfg bs succs_fn mbr = Some (Inr (lv, dead, n))"
  shows "well_formed cfg bs"
    and "1 \<le> n"
    and "in_range cfg bs lv"
    and "lv = after_sweeps dce cfg bs succs_fn mbr (n - 1)"
    and "sweep_lv dce cfg succs_fn mbr bs lv = lv"
proof -
  show wf: "well_formed cfg bs"
    using assms by (auto simp: liveness_fixpoint_def split: if_splits)
  from liveness_fixpoint_result [OF wf, of dce succs_fn mbr] assms
  show "1 \<le> n" and "in_range cfg bs lv"
    and "lv = after_sweeps dce cfg bs succs_fn mbr (n - 1)"
    and "sweep_lv dce cfg succs_fn mbr bs lv = lv"
    by auto
qed

lemma liveness_fixpoint_fixed:
  assumes "liveness_fixpoint dce cfg bs succs_fn mbr = Some (Inr (lv, dead, n))"
    and "c \<in> set bs"
  shows "transfer dce cfg succs_fn mbr lv c = lv c"
proof -
  note d = liveness_fixpoint_InrD [OF assms(1)]
  have "post_fixed dce cfg succs_fn mbr bs lv"
    unfolding d(4) by (rule post_fixed_after_sweeps)
  from sweep_lv_fixed [OF this d(5) assms(2)] show ?thesis .
qed

text \<open>
  At the fixed point that the analysis returns, a bit is live at a position of an analysed
  block iff a path from that position makes it live.
\<close>

lemma live_at_iff_live_path:
  assumes "liveness_fixpoint dce cfg bs succs_fn mbr = Some (Inr (lv, dead, n))"
    and "b \<in> set bs" and "k \<le> length (insns_of cfg b)"
  shows "r \<in> live_at dce cfg succs_fn mbr lv b k
    \<longleftrightarrow> live_path dce cfg (set bs) succs_fn mbr r b k"
proof
  assume "r \<in> live_at dce cfg succs_fn mbr lv b k"
  moreover have "justified dce cfg bs succs_fn mbr lv"
    unfolding liveness_fixpoint_InrD(4) [OF assms(1)] by (rule justified_after_sweeps)
  ultimately show "live_path dce cfg (set bs) succs_fn mbr r b k"
    using assms(2,3) by (intro live_at_path)
next
  assume "live_path dce cfg (set bs) succs_fn mbr r b k"
  from path_live_at [OF liveness_fixpoint_fixed [OF assms(1)] this]
  show "r \<in> live_at dce cfg succs_fn mbr lv b k" by simp
qed

lemma card_blocks_le:
  assumes "well_formed cfg bs"
  shows "card (set bs) \<le> length (blocks cfg)"
proof -
  from assms have "set bs \<subseteq> {..<length (blocks cfg)}" by (auto simp: well_formed_def)
  then have "card (set bs) \<le> card {..<length (blocks cfg)}" by (intro card_mono) auto
  then show ?thesis by simp
qed

section \<open>The dead instructions\<close>

text \<open>
  The query returns, and what it returns are the positions, in the analysed blocks, of the
  instructions that are not required at the fixed point.
\<close>

lemma snd_walk_block:
  "set (snd (walk_block req n T k is bl)) =
     {k + j | j. j < length is \<and> \<not> req (is ! j) (live_before req n T (drop (Suc j) is) bl)}"
proof (induction "is" arbitrary: k)
  case Nil
  show ?case by simp
next
  case (Cons i "is")
  obtain bl' dead where w: "walk_block req n T (Suc k) is bl = (bl', dead)"
    by (cases "walk_block req n T (Suc k) is bl")
  have bl': "bl' = live_before req n T is bl"
    using fst_walk_block [of req n T "Suc k" "is" bl] w by simp
  have dead: "set dead =
      {Suc k + j | j. j < length is \<and> \<not> req (is ! j) (live_before req n T (drop (Suc j) is) bl)}"
    using Cons.IH [of "Suc k"] w by simp
  have split: "{k + j | j. j < length (i # is)
        \<and> \<not> req ((i # is) ! j) (live_before req n T (drop (Suc j) (i # is)) bl)}
      = (if req i bl' then {} else {k})
        \<union> {Suc k + j | j. j < length is
              \<and> \<not> req (is ! j) (live_before req n T (drop (Suc j) is) bl)}"
    (is "?L = ?R")
  proof (intro set_eqI iffI)
    fix x assume "x \<in> ?L"
    then obtain j where j: "x = k + j" "j < length (i # is)"
      "\<not> req ((i # is) ! j) (live_before req n T (drop (Suc j) (i # is)) bl)" by blast
    show "x \<in> ?R"
    proof (cases j)
      case 0
      with j bl' show ?thesis by simp
    next
      case (Suc j')
      with j have "x = Suc k + j'" "j' < length is"
        "\<not> req (is ! j') (live_before req n T (drop (Suc j') is) bl)" by simp_all
      then show ?thesis by blast
    qed
  next
    fix x assume "x \<in> ?R"
    then consider (here) "\<not> req i bl'" "x = k"
      | (later) j where "x = Suc k + j" "j < length is"
          "\<not> req (is ! j) (live_before req n T (drop (Suc j) is) bl)"
      by (auto split: if_splits)
    then show "x \<in> ?L"
    proof cases
      case here
      then have "x = k + 0 \<and> 0 < length (i # is)
        \<and> \<not> req ((i # is) ! 0) (live_before req n T (drop (Suc 0) (i # is)) bl)"
        using bl' by simp
      then show ?thesis by blast
    next
      case (later j)
      then have "x = k + Suc j \<and> Suc j < length (i # is)
        \<and> \<not> req ((i # is) ! Suc j) (live_before req n T (drop (Suc (Suc j)) (i # is)) bl)"
        by simp
      then show ?thesis by blast
    qed
  qed
  show ?case unfolding split using w dead by (auto simp: Let_def)
qed

lemma snd_process_block:
  "set (snd (process_block dce cfg succs_fn mbr lv b)) =
     {k. k < length (insns_of cfg b) \<and> \<not> required_at dce cfg succs_fn mbr lv b k}"
  by (simp add: process_block_def snd_walk_block required_at_def live_at_def)

lemma sweep_changed_stays:
  "sweep dce cfg succs_fn mbr bs (lv, True, d) = (lv', c', d') \<Longrightarrow> c'"
proof (induction bs arbitrary: lv d)
  case Nil
  then show ?case by simp
next
  case (Cons b bs)
  from Cons.prems obtain lv1 d1 where
    "sweep dce cfg succs_fn mbr bs (lv1, True, d1) = (lv', c', d')"
    by (simp add: sweep_Cons del: sweep.simps)
  then show ?case by (rule Cons.IH)
qed

lemma sweep_unchanged_dead:
  assumes "sweep dce cfg succs_fn mbr bs (lv, c, d) = (lv', False, d')"
  shows "lv' = lv \<and> set d' = set d \<union>
    {(b, k). b \<in> set bs \<and> k < length (insns_of cfg b) \<and> \<not> required_at dce cfg succs_fn mbr lv b k}"
  using assms
proof (induction bs arbitrary: c d)
  case Nil
  then show ?case by simp
next
  case (Cons b bs)
  let ?lv = "lv(b := transfer dce cfg succs_fn mbr lv b)"
  let ?c = "c \<or> transfer dce cfg succs_fn mbr lv b \<noteq> lv b"
  let ?d = "d @ map (Pair b) (snd (process_block dce cfg succs_fn mbr lv b))"
  from Cons.prems have sw: "sweep dce cfg succs_fn mbr bs (?lv, ?c, ?d) = (lv', False, d')"
    by (simp add: sweep_Cons del: sweep.simps)
  have "\<not> ?c"
  proof
    assume ?c
    with sw have "sweep dce cfg succs_fn mbr bs (?lv, True, ?d) = (lv', False, d')" by simp
    from sweep_changed_stays [OF this] show False .
  qed
  then have eq: "?lv = lv" by (simp add: fun_upd_idem_iff)
  with sw have "sweep dce cfg succs_fn mbr bs (lv, ?c, ?d) = (lv', False, d')" by simp
  from Cons.IH [OF this] show ?case
    by (auto simp: snd_process_block)
qed

lemma get_dead_instructions_result:
  assumes "liveness_fixpoint dce cfg bs succs_fn mbr = Some (Inr (lv, dead, n))"
  shows "get_dead_instructions dce cfg bs succs_fn mbr = Some (Inr dead)"
    and "set dead =
      {(b, k). b \<in> set bs \<and> k < length (insns_of cfg b)
         \<and> \<not> required_at dce cfg succs_fn mbr lv b k}"
proof -
  show "get_dead_instructions dce cfg bs succs_fn mbr = Some (Inr dead)"
    using assms by (simp add: get_dead_instructions_def)
  have wf: "well_formed cfg bs"
    using assms by (auto simp: liveness_fixpoint_def split: if_splits)
  from fixpoint_loop_terminates [OF wf post_fixed_init in_range_init, of dce succs_fn mbr 0]
    assms wf
  have fx: "sweep_lv dce cfg succs_fn mbr bs lv = lv"
    and dd: "dead = snd (snd (sweep dce cfg succs_fn mbr bs (lv, False, [])))"
    by (auto simp: liveness_fixpoint_def)
  obtain lv1 c1 d1 where sw: "sweep dce cfg succs_fn mbr bs (lv, False, []) = (lv1, c1, d1)"
    by (cases "sweep dce cfg succs_fn mbr bs (lv, False, [])")
  have pf: "post_fixed dce cfg succs_fn mbr bs lv"
    unfolding liveness_fixpoint_InrD(4) [OF assms] by (rule post_fixed_after_sweeps)
  from sweep_post_fixed [OF pf subset_refl sw] fx sw have "\<not> c1"
    by (simp add: sweep_lv_def)
  with sw have "sweep dce cfg succs_fn mbr bs (lv, False, []) = (lv1, False, d1)" by simp
  from sweep_unchanged_dead [OF this] sw dd
  show "set dead =
      {(b, k). b \<in> set bs \<and> k < length (insns_of cfg b)
         \<and> \<not> required_at dce cfg succs_fn mbr lv b k}"
    by simp
qed

lemma get_dead_instructions_returns:
  "\<exists>res. get_dead_instructions dce cfg bs succs_fn mbr = Some res"
proof (cases "well_formed cfg bs")
  case True
  from liveness_fixpoint_result [OF True, of dce succs_fn mbr]
  show ?thesis by (auto simp: get_dead_instructions_def)
next
  case False
  then show ?thesis by (simp add: get_dead_instructions_def liveness_fixpoint_def)
qed

section \<open>Evaluation of the examples\<close>

lemmas eval_defs =
  liveness_fixpoint_def well_formed_def fixpoint_loop.simps process_block_def block_req_def
  catch_live_def live_out_def catch_edges_def is_required_def update_liveness_def dest_live_def
  defs_def uses_def assumenosideeffects_def insns_of_def succs_of_def is_catch_block_def
  any_instruction_def no_pure_methods_def pure_callee_def LocalDce_new_def
  sweeps_of_def live_in_of_def get_dead_instructions_def

lemma dead_read_live_in:
  "live_in_of (liveness_fixpoint no_pure_methods dead_read_cfg [0] (succs_of dead_read_cfg)
     any_instruction) 0 = Some {}"
  by (simp add: eval_defs dead_read_cfg_def)

lemma dead_read_cfg_dead:
  "get_dead_instructions no_pure_methods dead_read_cfg [0] (succs_of dead_read_cfg) any_instruction
     = Some (Inr [(0, 0)])"
  by (simp add: eval_defs dead_read_cfg_def)

lemma try_cfg_sweeps:
  "sweeps_of (liveness_fixpoint no_pure_methods try_cfg [1, 2, 0] (succs_of try_cfg)
     any_instruction) = Some 2"
  by (simp add: eval_defs try_cfg_def)

lemma try_cfg_live_in:
  "live_in_of (liveness_fixpoint no_pure_methods try_cfg [1, 2, 0] (succs_of try_cfg)
     any_instruction) 2 = Some {2}"
  by (simp add: eval_defs try_cfg_def)

lemma try_cfg_live_in_0:
  "live_in_of (liveness_fixpoint no_pure_methods try_cfg [1, 2, 0] (succs_of try_cfg)
     any_instruction) 0 = Some {2}"
  by (simp add: eval_defs try_cfg_def)

lemma call_cfg_dead:
  "get_dead_instructions pure_callee call_cfg [0] (succs_of call_cfg) any_instruction
     = Some (Inr [])"
  by (simp add: eval_defs call_cfg_def)

lemma call_cfg_live_in:
  "live_in_of (liveness_fixpoint pure_callee call_cfg [0] (succs_of call_cfg) any_instruction) 0
     = Some {}"
  by (simp add: eval_defs call_cfg_def)

lemma get_dead_instructions_InrD:
  assumes "get_dead_instructions dce cfg bs succs_fn mbr = Some (Inr dead)"
  shows "\<exists>lv n. liveness_fixpoint dce cfg bs succs_fn mbr = Some (Inr (lv, dead, n))"
proof -
  from assms obtain z where z: "liveness_fixpoint dce cfg bs succs_fn mbr = Some z"
    and m: "map_sum id (fst \<circ> snd) z = Inr dead"
    by (auto simp: get_dead_instructions_def)
  from m obtain lv n where "z = Inr (lv, dead, n)"
    by (cases z) auto
  with z show ?thesis by blast
qed

section \<open>Convergence\<close>

text \<open>
  Claim C3. For every input graph, list of analysed blocks, successor function and
  requirement policy, the backward fixed-point sweep terminates (a malformed graph is
  rejected), and the sweeps that the fixed point takes, those that change the liveness of
  some block, are at most \<open>(num_regs + 1) * block_count\<close>: each of them sets at least one
  more of the \<open>num_regs + 1\<close> bits of some analysed block. The one sweep after them changes
  nothing, which ends the loop; counted with it, the sweeps are still within the bound
  unless every bit of every analysed block is live at the end. From one sweep to the next,
  the live-in set of every block is a superset of or equal to what it was.
\<close>

theorem liveness_sweeps_bounded:
  "\<exists>res. liveness_fixpoint dce cfg bs succs_fn mbr = Some res \<and>
     (case res of
        Inl e \<Rightarrow> \<not> well_formed cfg bs
      | Inr (lv, dead, n) \<Rightarrow>
          well_formed cfg bs \<and>
          (\<exists>k. n = Suc k
             \<and> k \<le> (num_regs cfg + 1) * card (set bs)
             \<and> k \<le> (num_regs cfg + 1) * length (blocks cfg)
             \<and> (\<forall>j<k. after_sweeps dce cfg bs succs_fn mbr j
                    \<noteq> after_sweeps dce cfg bs succs_fn mbr (Suc j))
             \<and> lv = after_sweeps dce cfg bs succs_fn mbr k
             \<and> after_sweeps dce cfg bs succs_fn mbr (Suc k) = lv
             \<and> ((\<exists>b \<in> set bs. \<exists>r \<le> num_regs cfg. r \<notin> lv b)
                  \<longrightarrow> Suc k \<le> (num_regs cfg + 1) * card (set bs))))
   \<and> (\<forall>k b. after_sweeps dce cfg bs succs_fn mbr k b
            \<subseteq> after_sweeps dce cfg bs succs_fn mbr (Suc k) b)"
proof -
  have mono: "\<forall>k b. after_sweeps dce cfg bs succs_fn mbr k b
      \<subseteq> after_sweeps dce cfg bs succs_fn mbr (Suc k) b"
    using after_sweeps_mono [of dce cfg bs succs_fn mbr] unfolding le_fun_def by blast
  show ?thesis
  proof (cases "well_formed cfg bs")
    case False
    then show ?thesis using mono by (simp add: liveness_fixpoint_def)
  next
    case True
    from liveness_fixpoint_result [OF True, of dce succs_fn mbr]
    obtain lv dead k where r:
      "liveness_fixpoint dce cfg bs succs_fn mbr = Some (Inr (lv, dead, Suc k))"
      "k \<le> total_bits bs lv"
      "in_range cfg bs lv"
      "lv = after_sweeps dce cfg bs succs_fn mbr k"
      "sweep_lv dce cfg succs_fn mbr bs lv = lv"
      "\<forall>j<k. after_sweeps dce cfg bs succs_fn mbr j
          \<noteq> after_sweeps dce cfg bs succs_fn mbr (Suc j)"
      by blast
    have k1: "k \<le> (num_regs cfg + 1) * card (set bs)"
      using r(2) total_bits_bound [OF r(3)] by simp
    have "(num_regs cfg + 1) * card (set bs) \<le> (num_regs cfg + 1) * length (blocks cfg)"
      using card_blocks_le [OF True] by (rule mult_le_mono2)
    with k1 have k2: "k \<le> (num_regs cfg + 1) * length (blocks cfg)" by simp
    have fx: "after_sweeps dce cfg bs succs_fn mbr (Suc k) = lv"
      using r(4,5) by (simp add: after_sweeps_def)
    have k3: "Suc k \<le> (num_regs cfg + 1) * card (set bs)"
      if "\<exists>b \<in> set bs. \<exists>r \<le> num_regs cfg. r \<notin> lv b"
    proof -
      from that obtain b x where "b \<in> set bs" "x \<le> num_regs cfg" "x \<notin> lv b" by blast
      from total_bits_not_full [OF r(3) this] r(2) show ?thesis by simp
    qed
    have "\<exists>k'. Suc k = Suc k'
        \<and> k' \<le> (num_regs cfg + 1) * card (set bs)
        \<and> k' \<le> (num_regs cfg + 1) * length (blocks cfg)
        \<and> (\<forall>j<k'. after_sweeps dce cfg bs succs_fn mbr j
               \<noteq> after_sweeps dce cfg bs succs_fn mbr (Suc j))
        \<and> lv = after_sweeps dce cfg bs succs_fn mbr k'
        \<and> after_sweeps dce cfg bs succs_fn mbr (Suc k') = lv
        \<and> ((\<exists>b \<in> set bs. \<exists>r \<le> num_regs cfg. r \<notin> lv b)
             \<longrightarrow> Suc k' \<le> (num_regs cfg + 1) * card (set bs))"
      using k1 k2 k3 fx r(4,6) by (intro exI [of _ k]) blast
    with r(1) True mono show ?thesis by simp
  qed
qed

theorem liveness_sweeps_bounded_witness:
  "well_formed try_cfg [1, 2, 0]
   \<and> sweeps_of (liveness_fixpoint no_pure_methods try_cfg [1, 2, 0] (succs_of try_cfg)
        any_instruction) = Some 2
   \<and> live_in_of (liveness_fixpoint no_pure_methods try_cfg [1, 2, 0] (succs_of try_cfg)
        any_instruction) 0
       = Some (after_sweeps no_pure_methods try_cfg [1, 2, 0] (succs_of try_cfg) any_instruction 1 0)
   \<and> after_sweeps no_pure_methods try_cfg [1, 2, 0] (succs_of try_cfg) any_instruction 0
       \<noteq> after_sweeps no_pure_methods try_cfg [1, 2, 0] (succs_of try_cfg) any_instruction 1
   \<and> after_sweeps no_pure_methods try_cfg [1, 2, 0] (succs_of try_cfg) any_instruction 2 0
       = after_sweeps no_pure_methods try_cfg [1, 2, 0] (succs_of try_cfg) any_instruction 1 0
   \<and> (1::nat) \<le> (num_regs try_cfg + 1) * card (set [1, 2, 0::nat])
   \<and> live_in_of (liveness_fixpoint no_pure_methods try_cfg [1, 2, 0] (succs_of try_cfg)
        any_instruction) 0 = Some {2}
   \<and> (2::nat) \<le> (num_regs try_cfg + 1) * card (set [1, 2, 0::nat])"
proof -
  let ?a = "after_sweeps no_pure_methods try_cfg [1, 2, 0] (succs_of try_cfg) any_instruction"
  from liveness_sweeps_bounded
    [of no_pure_methods try_cfg "[1, 2, 0]" "succs_of try_cfg" any_instruction]
  obtain res where
    r: "liveness_fixpoint no_pure_methods try_cfg [1, 2, 0] (succs_of try_cfg) any_instruction
          = Some res"
    and c: "case res of
        Inl e \<Rightarrow> \<not> well_formed try_cfg [1, 2, 0]
      | Inr (lv, dead, n) \<Rightarrow>
          well_formed try_cfg [1, 2, 0] \<and>
          (\<exists>k. n = Suc k
             \<and> k \<le> (num_regs try_cfg + 1) * card (set [1, 2, 0::nat])
             \<and> k \<le> (num_regs try_cfg + 1) * length (blocks try_cfg)
             \<and> (\<forall>j<k. ?a j \<noteq> ?a (Suc j))
             \<and> lv = ?a k
             \<and> ?a (Suc k) = lv
             \<and> ((\<exists>b \<in> set [1, 2, 0::nat]. \<exists>r \<le> num_regs try_cfg. r \<notin> lv b)
                  \<longrightarrow> Suc k \<le> (num_regs try_cfg + 1) * card (set [1, 2, 0::nat])))"
    by blast
  from r try_cfg_sweeps obtain lv dead where res: "res = Inr (lv, dead, 2)"
    by (auto simp: sweeps_of_def split: sum.splits)
  from c res have wf: "well_formed try_cfg [1, 2, 0]"
    and b: "(1::nat) \<le> (num_regs try_cfg + 1) * card (set [1, 2, 0::nat])"
    and ne: "\<forall>j<1. ?a j \<noteq> ?a (Suc j)"
    and lv: "lv = ?a 1" and fx: "?a (Suc 1) = lv"
    and all: "(\<exists>b \<in> set [1, 2, 0::nat]. \<exists>r \<le> num_regs try_cfg. r \<notin> lv b)
      \<longrightarrow> Suc 1 \<le> (num_regs try_cfg + 1) * card (set [1, 2, 0::nat])"
    by auto
  from r res try_cfg_live_in_0 have l0: "lv 0 = {2}" by (simp add: live_in_of_def)
  then have "(0::nat) \<in> set [1, 2, 0::nat] \<and> 0 \<le> num_regs try_cfg \<and> 0 \<notin> lv 0" by simp
  then have "\<exists>b \<in> set [1, 2, 0::nat]. \<exists>r \<le> num_regs try_cfg. r \<notin> lv b" by blast
  with all have b2: "(2::nat) \<le> (num_regs try_cfg + 1) * card (set [1, 2, 0::nat])" by simp
  from ne have "?a 0 \<noteq> ?a 1" by simp
  moreover from fx lv have "?a 2 0 = ?a 1 0" by (simp add: numeral_2_eq_2)
  ultimately show ?thesis using r res wf b b2 lv l0
    by (simp add: live_in_of_def sweeps_of_def)
qed

section \<open>The contract of the liveness engine\<close>

text \<open>
  Claim C2 says that a bit is live-in to a block iff some path from the block reads it
  before it is next written (or a guarded catch handler has it live-in). On \<open>dead_read_cfg\<close>
  the first instruction of block 0 reads \<open>r0\<close>, yet \<open>r0\<close> is not live-in: the instruction
  has no side effect and its output \<open>r1\<close> is dead, so it is not required and its inputs
  are not made live ("An instruction's input registers are live if (a) it has side
  effects, or (b) its output registers are live").
\<close>

theorem live_in_read_path_counterexample:
  "live_in_of (liveness_fixpoint no_pure_methods dead_read_cfg [0] (succs_of dead_read_cfg)
     any_instruction) 0 = Some {}
   \<and> read_path dead_read_cfg UNIV (succs_of dead_read_cfg) 0 0 0"
proof -
  have "read_path dead_read_cfg UNIV (succs_of dead_read_cfg) 0 0 0"
    by (rule read_here) (simp_all add: dead_read_cfg_def insns_of_def uses_def)
  with dead_read_live_in show ?thesis by simp
qed

text \<open>
  Claim C2, amended. When the analysis of a graph returns, then for every analysed block
  \<open>b\<close> and every bit \<open>r\<close> of its live-in bitvector of \<open>num_regs + 1\<close> bits:
  \<^item> \<open>r\<close> is set iff some path starting at \<open>b\<close> reads \<open>r\<close> before it is next written, by an
    instruction that the policy may require and that has side effects or an output that is
    live after it in the same sense. The path runs through analysed blocks (blocks outside
    the analysed list are never visited and have nothing live); when the analysed blocks
    contain all their successors, as for a whole graph, it is any path of the graph. A
    path may leave a block for its catch handler at any instruction.
  \<^item> Equivalently, \<open>r\<close> is set iff there is such a path or \<open>r\<close> is live-in to a catch handler
    that \<open>b\<close> reaches by a throw edge.
  \<^item> What is set is read on some path before it is next written: that half of the claim
    holds as it stands.
  \<^item> Function-call results are the bit at index \<open>num_regs\<close>: a call without a destination
    register is reported dead iff the policy excludes it, or the purity oracle certifies it
    and no such path from the position after the call reads bit \<open>num_regs\<close>.
\<close>

theorem live_in_iff_live_path:
  assumes res: "liveness_fixpoint dce cfg bs succs_fn mbr = Some (Inr (lv, dead, n))"
    and b: "b \<in> set bs"
  shows "(r \<in> lv b \<longleftrightarrow> live_path dce cfg (set bs) succs_fn mbr r b 0)
       \<and> (r \<in> lv b \<longleftrightarrow>
            live_path dce cfg (set bs) succs_fn mbr r b 0
          \<or> (\<exists>e \<in> set (succs_fn b). kind e = EDGE_THROW \<and> is_catch_block cfg (target e)
                \<and> r \<in> lv (target e)))
       \<and> (r \<in> lv b \<longrightarrow> read_path cfg (set bs) succs_fn r b 0)
       \<and> (succs_closed bs succs_fn \<longrightarrow>
            (live_path dce cfg (set bs) succs_fn mbr r b 0
              \<longleftrightarrow> live_path dce cfg UNIV succs_fn mbr r b 0))
       \<and> lv b \<subseteq> {..num_regs cfg}
       \<and> (\<forall>k c. k < length (insns_of cfg b) \<longrightarrow> callee (insns_of cfg b ! k) = Some c \<longrightarrow>
              dest (insns_of cfg b ! k) = None \<longrightarrow>
            ((b, k) \<in> set dead \<longleftrightarrow>
               \<not> (mbr b (insns_of cfg b ! k)
                  \<and> (\<not> assumenosideeffects dce c
                     \<or> live_path dce cfg (set bs) succs_fn mbr (num_regs cfg) b (Suc k)))))"
proof -
  have fp: "transfer dce cfg succs_fn mbr lv b = lv b"
    by (rule liveness_fixpoint_fixed [OF res b])
  have iff: "r \<in> lv b \<longleftrightarrow> live_path dce cfg (set bs) succs_fn mbr r b 0"
    using live_at_iff_live_path [OF res b, of 0 r] fp by (simp add: live_at_0)
  have handler: "r \<in> lv b"
    if "e \<in> set (succs_fn b)" "kind e = EDGE_THROW" "is_catch_block cfg (target e)"
      "r \<in> lv (target e)" for e
  proof -
    from that have "r \<in> catch_live cfg succs_fn lv b" by (rule catch_liveI)
    with catch_live_subset_live_at [of 0 cfg b succs_fn lv dce mbr]
    have "r \<in> live_at dce cfg succs_fn mbr lv b 0" by auto
    with fp show ?thesis by (simp add: live_at_0)
  qed
  have rd: "read_path cfg (set bs) succs_fn r b 0" if "r \<in> lv b"
    using that iff by (auto intro: live_path_read_path)
  have cl: "live_path dce cfg (set bs) succs_fn mbr r b 0
      \<longleftrightarrow> live_path dce cfg UNIV succs_fn mbr r b 0"
    if "succs_closed bs succs_fn"
    using live_path_closed [OF that _ b] live_path_mono [of "set bs" UNIV] by blast
  have rng: "lv b \<subseteq> {..num_regs cfg}"
    using liveness_fixpoint_InrD(3) [OF res] by (simp add: in_range_def)
  have call: "(b, k) \<in> set dead \<longleftrightarrow>
      \<not> (mbr b (insns_of cfg b ! k)
         \<and> (\<not> assumenosideeffects dce c
            \<or> live_path dce cfg (set bs) succs_fn mbr (num_regs cfg) b (Suc k)))"
    if k: "k < length (insns_of cfg b)" and c: "callee (insns_of cfg b ! k) = Some c"
      and d: "dest (insns_of cfg b ! k) = None" for k c
  proof -
    have "(b, k) \<in> set dead \<longleftrightarrow> \<not> required_at dce cfg succs_fn mbr lv b k"
      using get_dead_instructions_result(2) [OF res] b k by simp
    moreover have "defs (num_regs cfg) (insns_of cfg b ! k) = {num_regs cfg}"
      using c d by (simp add: defs_def)
    moreover have "has_side_effects dce cfg b (insns_of cfg b ! k)
        \<longleftrightarrow> \<not> assumenosideeffects dce c"
      using c by (simp add: has_side_effects_def)
    moreover have "num_regs cfg \<in> live_at dce cfg succs_fn mbr lv b (Suc k)
        \<longleftrightarrow> live_path dce cfg (set bs) succs_fn mbr (num_regs cfg) b (Suc k)"
      using k by (intro live_at_iff_live_path [OF res b]) simp
    ultimately show ?thesis by (simp add: required_at_iff)
  qed
  from iff handler rd cl rng call show ?thesis by blast
qed

theorem live_in_iff_live_path_witness:
  "(\<exists>lv dead n.
      liveness_fixpoint no_pure_methods try_cfg [1, 2, 0] (succs_of try_cfg) any_instruction
        = Some (Inr (lv, dead, n))
      \<and> succs_closed [1, 2, 0] (succs_of try_cfg)
      \<and> 2 \<in> lv 2 \<and> 2 \<in> lv 0
      \<and> live_path no_pure_methods try_cfg UNIV (succs_of try_cfg) any_instruction 2 0 0
      \<and> read_path try_cfg (set [1, 2, 0]) (succs_of try_cfg) 2 0 0)
   \<and> (\<exists>lv dead n.
      liveness_fixpoint pure_callee call_cfg [0] (succs_of call_cfg) any_instruction
        = Some (Inr (lv, dead, n))
      \<and> callee (insns_of call_cfg 0 ! 0) = Some \<lparr> callee_ref = 7, callee_virtual = False \<rparr>
      \<and> assumenosideeffects pure_callee \<lparr> callee_ref = 7, callee_virtual = False \<rparr>
      \<and> (0, 0) \<notin> set dead
      \<and> live_path pure_callee call_cfg (set [0]) (succs_of call_cfg) any_instruction
          (num_regs call_cfg) 0 1)"
proof -
  from try_cfg_live_in obtain lv dead n where
    r: "liveness_fixpoint no_pure_methods try_cfg [1, 2, 0] (succs_of try_cfg) any_instruction
          = Some (Inr (lv, dead, n))"
    and l2: "lv 2 = {2}"
    by (auto simp: live_in_of_def split: option.splits sum.splits)
  let ?e = "\<lparr> kind = EDGE_THROW, src = 0, target = 2 \<rparr>"
  have e: "?e \<in> set (succs_of try_cfg 0)" "kind ?e = EDGE_THROW"
    "is_catch_block try_cfg (target ?e)"
    and cl: "succs_closed [1, 2, 0] (succs_of try_cfg)"
    by (simp_all add: succs_of_def try_cfg_def is_catch_block_def succs_closed_def)
  from l2 have "2 \<in> lv (target ?e)" by simp
  with e have h: "\<exists>e \<in> set (succs_of try_cfg 0). kind e = EDGE_THROW
      \<and> is_catch_block try_cfg (target e) \<and> 2 \<in> lv (target e)"
    by (intro bexI [of _ ?e] conjI)
  have m: "(0::nat) \<in> set [1, 2, 0]" by simp
  note t = live_in_iff_live_path [OF r m, of 2]
  from t h have in0: "2 \<in> lv 0" by blast
  from t in0 cl
  have p: "live_path no_pure_methods try_cfg UNIV (succs_of try_cfg) any_instruction 2 0 0"
    by blast
  from t in0 have rp: "read_path try_cfg (set [1, 2, 0]) (succs_of try_cfg) 2 0 0"
    by blast
  have first: "\<exists>lv dead n.
      liveness_fixpoint no_pure_methods try_cfg [1, 2, 0] (succs_of try_cfg) any_instruction
        = Some (Inr (lv, dead, n))
      \<and> succs_closed [1, 2, 0] (succs_of try_cfg)
      \<and> 2 \<in> lv 2 \<and> 2 \<in> lv 0
      \<and> live_path no_pure_methods try_cfg UNIV (succs_of try_cfg) any_instruction 2 0 0
      \<and> read_path try_cfg (set [1, 2, 0]) (succs_of try_cfg) 2 0 0"
    using r cl l2 in0 p rp by auto
  from get_dead_instructions_InrD [OF call_cfg_dead] obtain lv' n' where
    r': "liveness_fixpoint pure_callee call_cfg [0] (succs_of call_cfg) any_instruction
          = Some (Inr (lv', [], n'))"
    by blast
  have k: "0 < length (insns_of call_cfg 0)"
    and c: "callee (insns_of call_cfg 0 ! 0) = Some \<lparr> callee_ref = 7, callee_virtual = False \<rparr>"
    and d: "dest (insns_of call_cfg 0 ! 0) = None"
    and pure: "assumenosideeffects pure_callee \<lparr> callee_ref = 7, callee_virtual = False \<rparr>"
    by (simp_all add: insns_of_def call_cfg_def assumenosideeffects_def pure_callee_def
        LocalDce_new_def)
  have m': "(0::nat) \<in> set [0]" by simp
  have nd: "(0, 0) \<notin> set ([] :: (block_id \<times> nat) list)" by simp
  from live_in_iff_live_path [OF r' m', of 0] k c d pure nd
  have "live_path pure_callee call_cfg (set [0]) (succs_of call_cfg) any_instruction
      (num_regs call_cfg) 0 (Suc 0)"
    by blast
  then have "live_path pure_callee call_cfg (set [0]) (succs_of call_cfg) any_instruction
      (num_regs call_cfg) 0 1"
    by simp
  with r' c pure have second: "\<exists>lv dead n.
      liveness_fixpoint pure_callee call_cfg [0] (succs_of call_cfg) any_instruction
        = Some (Inr (lv, dead, n))
      \<and> callee (insns_of call_cfg 0 ! 0) = Some \<lparr> callee_ref = 7, callee_virtual = False \<rparr>
      \<and> assumenosideeffects pure_callee \<lparr> callee_ref = 7, callee_virtual = False \<rparr>
      \<and> (0, 0) \<notin> set dead
      \<and> live_path pure_callee call_cfg (set [0]) (succs_of call_cfg) any_instruction
          (num_regs call_cfg) 0 1"
    by (intro exI [of _ lv'] exI [of _ "[]"] exI [of _ n']) simp
  from first second show ?thesis by (rule conjI)
qed

end
